theory Spec2Isabelle
  imports Main
begin

section \<open>Tag evaluator of dummy\_data (src/dummy\_data/evaluators.py)\<close>

text \<open>
  The evaluator walks a parsed document (dict, list, str, other scalar) and replaces every
  tag \<^verbatim>\<open>{% name args %}\<close> by the result of calling the function \<^verbatim>\<open>name\<close> of the module
  \<^verbatim>\<open>functions\<close>. The module \<^verbatim>\<open>functions\<close> and the exception class are not part of the
  file: the functions are a parameter of the model, and so is the second phase of the
  callables that \<^verbatim>\<open>repeat\<close> and \<^verbatim>\<open>random\<close> return.
\<close>

subsection \<open>Python values, exceptions and the environment\<close>

text \<open>
  The values a document or a function result can be. \<open>PCallable pf c\<close> is an object with a
  \<^verbatim>\<open>__call__\<close> attribute: \<open>pf\<close> is its attribute \<^verbatim>\<open>parent_function\<close> (\<open>None\<close> when the
  object has no such attribute) and \<open>c\<close> identifies the closure. A dict is the list of its
  items in insertion order. Floats are left out.
\<close>

datatype pyval =
    PNone
  | PBool bool
  | PInt int
  | PStr string
  | PList "pyval list"
  | PDict "(pyval \<times> pyval) list"
  | PCallable "string option" nat

text \<open>
  \<open>DDEvaluatorException\<close> carries its message. \<open>RecursionError\<close> is what Python raises when
  the nesting of calls exceeds the interpreter's limit; here it is the outcome of
  \<open>evaluate_parsed\<close> at depth budget 0.
\<close>

datatype exn =
    DDEvaluatorException string
  | AttributeError
  | TypeError
  | RecursionError
  | OtherError string

text \<open>
  Functions of the registry may read and change state outside the evaluator (a random
  generator, a counter): a computation takes the state \<open>'w\<close> and returns its outcome, a
  value or a raised exception, with the new state.
\<close>

type_synonym 'w outcome = "(exn + pyval) \<times> 'w"

type_synonym 'w evaluator = "pyval \<Rightarrow> bool \<Rightarrow> pyval \<Rightarrow> 'w \<Rightarrow> (exn + pyval) \<times> 'w"

text \<open>
  \<open>getattr_functions E name\<close> is \<^verbatim>\<open>getattr(functions, name)\<close>, \<open>None\<close> when the module has no such
  attribute; the function is called with the argument tokens and the keyword
  \<^verbatim>\<open>iteration\<close>. An attribute that is not callable (a str, a module) is an entry whose call
  raises \<^verbatim>\<open>TypeError\<close>. \<open>call_deferred E item x ev\<close> is the call \<^verbatim>\<open>item(x, ev)\<close> of a callable
  item, with the evaluator as its callback. \<open>str_other E\<close> is Python's \<^verbatim>\<open>str\<close> on lists,
  dicts and callables.
\<close>

record 'w env =
  getattr_functions :: "string \<Rightarrow> (string list \<Rightarrow> pyval \<Rightarrow> 'w \<Rightarrow> (exn + pyval) \<times> 'w) option"
  call_deferred :: "pyval \<Rightarrow> pyval \<Rightarrow> 'w evaluator \<Rightarrow> 'w \<Rightarrow> (exn + pyval) \<times> 'w"
  str_other :: "pyval \<Rightarrow> string"

text \<open>\<^verbatim>\<open>hasattr(x, '__call__')\<close>\<close>

fun has_call :: "pyval \<Rightarrow> bool" where
  "has_call (PCallable pf c) = True"
| "has_call v = False"

fun parent_function :: "pyval \<Rightarrow> string option" where
  "parent_function (PCallable pf c) = pf"
| "parent_function v = None"

text \<open>Python's \<^verbatim>\<open>str\<close>: decimal digits for an int, the text itself for a str.\<close>

definition digit_char :: "nat \<Rightarrow> char" where
  "digit_char d = char_of (48 + d)"

function str_nat :: "nat \<Rightarrow> string" where
  "str_nat n = (if n < 10 then [digit_char n] else str_nat (n div 10) @ [digit_char (n mod 10)])"
  by pat_completeness auto
termination
  by (relation "measure id") auto

declare str_nat.simps [simp del]

definition str_int :: "int \<Rightarrow> string" where
  "str_int i = (if i < 0 then CHR ''-'' # str_nat (nat (- i)) else str_nat (nat i))"

definition py_str :: "'w env \<Rightarrow> pyval \<Rightarrow> string" where
  "py_str E v = (case v of
       PStr s \<Rightarrow> s
     | PInt i \<Rightarrow> str_int i
     | PNone \<Rightarrow> ''None''
     | PBool b \<Rightarrow> (if b then ''True'' else ''False'')
     | _ \<Rightarrow> str_other E v)"

text \<open>
  What \<^verbatim>\<open>list.extend\<close> iterates over: the elements of a list, the characters of a str, the
  keys of a dict; anything else is not iterable.
\<close>

definition py_iter :: "pyval \<Rightarrow> pyval list option" where
  "py_iter v = (case v of
       PList ys \<Rightarrow> Some ys
     | PStr s \<Rightarrow> Some (map (\<lambda>c. PStr [c]) s)
     | PDict d \<Rightarrow> Some (map fst d)
     | _ \<Rightarrow> None)"

text \<open>
  Dict keys: lists and dicts are unhashable; \<^verbatim>\<open>True == 1\<close> and \<^verbatim>\<open>False == 0\<close>, so a bool
  and an int can be the same key. Assigning to an existing key keeps the key and its
  position and replaces the value; a new key goes to the end.
\<close>

fun hashable :: "pyval \<Rightarrow> bool" where
  "hashable (PList xs) = False"
| "hashable (PDict d) = False"
| "hashable v = True"

fun py_key :: "pyval \<Rightarrow> pyval" where
  "py_key (PBool b) = PInt (if b then 1 else 0)"
| "py_key v = v"

definition key_eq :: "pyval \<Rightarrow> pyval \<Rightarrow> bool" where
  "key_eq a b = (py_key a = py_key b)"

fun dict_set :: "(pyval \<times> pyval) list \<Rightarrow> pyval \<Rightarrow> pyval \<Rightarrow> (pyval \<times> pyval) list" where
  "dict_set [] k v = [(k, v)]"
| "dict_set ((k', v') # d) k v =
     (if key_eq k' k then (k', v) # d else (k', v') # dict_set d k v)"

subsection \<open>Regular expressions as Python's \<^verbatim>\<open>re\<close> matches them\<close>

text \<open>
  Text is a list of code points below 256. The classes \<^verbatim>\<open>\s\<close>, \<^verbatim>\<open>\d\<close> and \<^verbatim>\<open>\w\<close> are the
  ones of a str pattern (Unicode mode) on that range.
\<close>

definition is_space :: "char \<Rightarrow> bool" where
  "is_space c = (let n = (of_char c :: nat) in
     (9 \<le> n \<and> n \<le> 13) \<or> (28 \<le> n \<and> n \<le> 32) \<or> n = 133 \<or> n = 160)"

definition is_digit :: "char \<Rightarrow> bool" where
  "is_digit c = (let n = (of_char c :: nat) in 48 \<le> n \<and> n \<le> 57)"

definition is_word :: "char \<Rightarrow> bool" where
  "is_word c = (let n = (of_char c :: nat) in
     (48 \<le> n \<and> n \<le> 57) \<or> (65 \<le> n \<and> n \<le> 90) \<or> n = 95 \<or> (97 \<le> n \<and> n \<le> 122) \<or>
     n = 170 \<or> n = 178 \<or> n = 179 \<or> n = 181 \<or> n = 185 \<or> n = 186 \<or>
     (188 \<le> n \<and> n \<le> 190) \<or> (192 \<le> n \<and> n \<le> 214) \<or> (216 \<le> n \<and> n \<le> 246) \<or>
     (248 \<le> n \<and> n \<le> 255))"

text \<open>
  The constructs the two patterns use. \<open>Star\<close> is the greedy \<^verbatim>\<open>*\<close>, \<open>StarLazy\<close> is \<^verbatim>\<open>*?\<close>,
  \<open>Ahead\<close> and \<open>NotAhead\<close> are \<^verbatim>\<open>(?=...)\<close> and \<^verbatim>\<open>(?!...)\<close>, \<open>NotBehind P\<close> is \<^verbatim>\<open>(?<![...])\<close>
  on one character, \<open>WordB\<close> is \<^verbatim>\<open>\b\<close>, \<open>Group\<close> is a named group.
\<close>

datatype re =
    Chr "char \<Rightarrow> bool"
  | Eps
  | Seq re re
  | Alt re re
  | Star re
  | StarLazy re
  | Ahead re
  | NotAhead re
  | NotBehind "char \<Rightarrow> bool"
  | WordB
  | Group string re

text \<open>
  A matcher state is the position in the subject and the groups closed so far (the latest
  first). \<open>ms r s st\<close> lists the states in which \<open>r\<close> can end when started in \<open>st\<close>, in the
  order in which the backtracking matcher tries them: the match Python reports is the
  first one. A repetition tries another round before stopping when greedy, and stops
  before trying another round when lazy; a round has to consume a character.
\<close>

type_synonym mstate = "nat \<times> (string \<times> nat \<times> nat) list"

fun iter_greedy :: "nat \<Rightarrow> (mstate \<Rightarrow> mstate list) \<Rightarrow> mstate \<Rightarrow> mstate list" where
  "iter_greedy 0 f st = [st]"
| "iter_greedy (Suc n) f st =
     concat (map (iter_greedy n f) (filter (\<lambda>st'. fst st < fst st') (f st))) @ [st]"

fun iter_lazy :: "nat \<Rightarrow> (mstate \<Rightarrow> mstate list) \<Rightarrow> mstate \<Rightarrow> mstate list" where
  "iter_lazy 0 f st = [st]"
| "iter_lazy (Suc n) f st =
     st # concat (map (iter_lazy n f) (filter (\<lambda>st'. fst st < fst st') (f st)))"

definition at_word :: "string \<Rightarrow> nat \<Rightarrow> bool" where
  "at_word s p = (p < length s \<and> is_word (s ! p))"

primrec ms :: "re \<Rightarrow> string \<Rightarrow> mstate \<Rightarrow> mstate list" where
  "ms (Chr P) s st =
     (if fst st < length s \<and> P (s ! fst st) then [(Suc (fst st), snd st)] else [])"
| "ms Eps s st = [st]"
| "ms (Seq a b) s st = concat (map (ms b s) (ms a s st))"
| "ms (Alt a b) s st = ms a s st @ ms b s st"
| "ms (Star a) s st = iter_greedy (length s - fst st) (ms a s) st"
| "ms (StarLazy a) s st = iter_lazy (length s - fst st) (ms a s) st"
| "ms (Ahead a) s st = (if ms a s st = [] then [] else [st])"
| "ms (NotAhead a) s st = (if ms a s st = [] then [st] else [])"
| "ms (NotBehind P) s st = (if 0 < fst st \<and> P (s ! (fst st - 1)) then [] else [st])"
| "ms WordB s st =
     (if (0 < fst st \<and> at_word s (fst st - 1)) \<noteq> at_word s (fst st) then [st] else [])"
| "ms (Group g a) s st = map (\<lambda>st'. (fst st', (g, fst st, fst st') # snd st')) (ms a s st)"

definition lit :: "char \<Rightarrow> re" where
  "lit c = Chr (\<lambda>x. x = c)"

definition Plus :: "re \<Rightarrow> re" where
  "Plus r = Seq r (Star r)"

definition PlusLazy :: "re \<Rightarrow> re" where
  "PlusLazy r = Seq r (StarLazy r)"

definition Opt :: "re \<Rightarrow> re" where
  "Opt r = Alt r Eps"

definition seqs :: "re list \<Rightarrow> re" where
  "seqs rs = foldr Seq rs Eps"

definition alts :: "re list \<Rightarrow> re" where
  "alts rs = foldr Alt (butlast rs) (last rs)"

text \<open>
  \<^verbatim>\<open>\{% \s* (?P<function> \b \w+ \b) (?P<args> (?: \s* [^\s]+ )*? )? \s* %\}\<close>
\<close>

definition TAG_PATTERN :: re where
  "TAG_PATTERN = seqs
     [lit CHR ''{'', lit CHR ''%'', Star (Chr is_space),
      Group ''function'' (seqs [WordB, Plus (Chr is_word), WordB]),
      Opt (Group ''args''
        (StarLazy (seqs [Star (Chr is_space), Plus (Chr (\<lambda>c. \<not> is_space c))]))),
      Star (Chr is_space), lit CHR ''%'', lit CHR ''}'']"

definition date_char :: "char \<Rightarrow> bool" where
  "date_char c = (c = CHR '':'' \<or> c = CHR ''/'' \<or> is_digit c)"

definition hexlow :: "char \<Rightarrow> bool" where
  "hexlow c = (is_digit c \<or> (let n = (of_char c :: nat) in 97 \<le> n \<and> n \<le> 102))"

definition not_space :: "char \<Rightarrow> bool" where
  "not_space c = (\<not> is_space c)"

text \<open>
  The three alternatives of \<^verbatim>\<open>ARG_PATTERN\<close>: a number, a quoted string, a bare token
  (\<open>CHR 0x22\<close> is the double quote, \<open>CHR 0x5C\<close> the backslash).
\<close>

definition ARG_number :: re where
  "ARG_number = seqs
     [NotBehind not_space, NotBehind date_char, Opt (lit CHR ''-''),
      Ahead (Alt (Chr (\<lambda>c. is_digit c \<and> c \<noteq> CHR ''0''))
                 (Seq (lit CHR ''0'') (NotAhead (Chr is_digit)))),
      Plus (Chr is_digit),
      Opt (seqs [lit CHR ''.'', Plus (Chr is_digit)]),
      Opt (seqs [Chr (\<lambda>c. c = CHR ''e'' \<or> c = CHR ''E''),
                 Opt (Chr (\<lambda>c. c = CHR ''+'' \<or> c = CHR ''-'')), Plus (Chr is_digit)]),
      NotAhead (Chr date_char), NotAhead (Chr not_space)]"

definition ARG_quoted :: re where
  "ARG_quoted = seqs
     [NotBehind not_space, lit CHR 0x22,
      StarLazy (alts
        [Chr (\<lambda>c. c \<noteq> CHR 0x22 \<and> c \<noteq> CHR 0x5C),
         seqs [lit CHR 0x5C,
               Chr (\<lambda>c. c \<in> set [CHR 0x22, CHR 0x5C, CHR ''b'', CHR ''f'', CHR ''n'',
                                     CHR ''r'', CHR ''t'', CHR ''/''])],
         seqs [lit CHR 0x5C, lit CHR ''u'', Chr hexlow, Chr hexlow, Chr hexlow, Chr hexlow],
         seqs [lit CHR 0x5C, lit CHR 0x5C, lit CHR 0x5C, lit CHR 0x22]]),
      lit CHR 0x22, NotAhead (Chr not_space)]"

definition ARG_bare :: re where
  "ARG_bare = seqs
     [NotBehind not_space,
      PlusLazy (Chr (\<lambda>c. c \<noteq> CHR 0x22 \<and> c \<noteq> CHR 0x5C \<and> \<not> is_space c)),
      NotAhead (Chr not_space)]"

definition ARG_PATTERN :: re where
  "ARG_PATTERN = alts [ARG_number, ARG_quoted, ARG_bare]"

subsection \<open>Match objects, \<^verbatim>\<open>search\<close>, \<^verbatim>\<open>findall\<close> and \<^verbatim>\<open>sub\<close>\<close>

record rmatch =
  m_string :: string
  m_start :: nat
  m_end :: nat
  m_groups :: "(string \<times> nat \<times> nat) list"

definition match_at :: "re \<Rightarrow> string \<Rightarrow> nat \<Rightarrow> rmatch option" where
  "match_at r s p = (case ms r s (p, []) of
       [] \<Rightarrow> None
     | st # _ \<Rightarrow> Some \<lparr>m_string = s, m_start = p, m_end = fst st, m_groups = snd st\<rparr>)"

text \<open>The leftmost match that starts at \<open>p\<close> or later.\<close>

function search_from :: "re \<Rightarrow> string \<Rightarrow> nat \<Rightarrow> rmatch option" where
  "search_from r s p =
     (if length s < p then None
      else case match_at r s p of Some m \<Rightarrow> Some m | None \<Rightarrow> search_from r s (Suc p))"
  by pat_completeness auto
termination
  by (relation "measure (\<lambda>(r, s, p). Suc (length s) - p)") auto

declare search_from.simps [simp del]

definition search :: "re \<Rightarrow> string \<Rightarrow> rmatch option" where
  "search r s = search_from r s 0"

text \<open>\<^verbatim>\<open>match.group(g)\<close>: \<open>None\<close> when the group took no part in the match.\<close>

definition group :: "rmatch \<Rightarrow> string \<Rightarrow> string option" where
  "group m g = (case map_of (m_groups m) g of
       None \<Rightarrow> None
     | Some (a, b) \<Rightarrow> Some (take (b - a) (drop a (m_string m))))"

text \<open>
  The successive non-overlapping matches, left to right. Both patterns consume a
  character in every match (\<open>consumes\<close> below), so the scan goes on after the end of each
  match; the way \<^verbatim>\<open>re\<close> steps over an empty match is not needed and not modelled: the scan
  stops there.
\<close>

function finditer_from :: "re \<Rightarrow> string \<Rightarrow> nat \<Rightarrow> rmatch list" where
  "finditer_from r s p =
     (case search_from r s p of
        None \<Rightarrow> []
      | Some m \<Rightarrow>
          if p < m_end m \<and> m_end m \<le> length s then m # finditer_from r s (m_end m)
          else [m])"
  by pat_completeness auto
termination
  by (relation "measure (\<lambda>(r, s, p). Suc (length s) - p)") auto

declare finditer_from.simps [simp del]

definition finditer :: "re \<Rightarrow> string \<Rightarrow> rmatch list" where
  "finditer r s = finditer_from r s 0"

definition findall :: "re \<Rightarrow> string \<Rightarrow> string list" where
  "findall r s =
     map (\<lambda>m. take (m_end m - m_start m) (drop (m_start m) s)) (finditer r s)"

text \<open>
  \<^verbatim>\<open>re.sub(pattern, f, s)\<close> with a function \<open>f\<close>: \<open>f\<close> is called on each match from left to
  right, an exception of \<open>f\<close> ends the call at once; a result \<^verbatim>\<open>None\<close> adds nothing
  (\<^verbatim>\<open>re.sub('a', lambda m: None, 'abc')\<close> is \<^verbatim>\<open>'bc'\<close>); at the end the pieces (the text between
  the matches and the results) are joined, and joining raises \<^verbatim>\<open>TypeError\<close> when a result is
  not a str (\<^verbatim>\<open>re.sub('abc', lambda m: 7, 'abc')\<close> raises it).
\<close>

fun sub_pieces ::
  "(rmatch \<Rightarrow> 'w \<Rightarrow> (exn + pyval) \<times> 'w) \<Rightarrow> string \<Rightarrow> nat \<Rightarrow> rmatch list \<Rightarrow> 'w
     \<Rightarrow> (exn + pyval list) \<times> 'w" where
  "sub_pieces f s pos [] w = (Inr [PStr (drop pos s)], w)"
| "sub_pieces f s pos (m # rest) w =
     (case f m w of
        (Inl e, w1) \<Rightarrow> (Inl e, w1)
      | (Inr v, w1) \<Rightarrow>
          (case sub_pieces f s (m_end m) rest w1 of
             (Inl e, w2) \<Rightarrow> (Inl e, w2)
           | (Inr ps, w2) \<Rightarrow>
               (Inr (PStr (take (m_start m - pos) (drop pos s))
                       # (if v = PNone then [] else [v]) @ ps), w2)))"

fun is_str :: "pyval \<Rightarrow> bool" where
  "is_str (PStr s) = True"
| "is_str v = False"

fun the_str :: "pyval \<Rightarrow> string" where
  "the_str (PStr s) = s"
| "the_str v = []"

definition str_join :: "pyval list \<Rightarrow> exn + pyval" where
  "str_join ps = (if list_all is_str ps then Inr (PStr (concat (map the_str ps))) else Inl TypeError)"

definition re_sub ::
  "re \<Rightarrow> (rmatch \<Rightarrow> 'w \<Rightarrow> (exn + pyval) \<times> 'w) \<Rightarrow> string \<Rightarrow> 'w \<Rightarrow> (exn + pyval) \<times> 'w" where
  "re_sub r f s w =
     (case sub_pieces f s 0 (finditer r s) w of
        (Inl e, w1) \<Rightarrow> (Inl e, w1)
      | (Inr ps, w1) \<Rightarrow> (str_join ps, w1))"

subsection \<open>The evaluator\<close>

text \<open>
  \<^verbatim>\<open>x[1:-1] if x[0] == '"' and x[-1] == '"' else x\<close>. The tokens \<^verbatim>\<open>findall\<close> returns are
  never empty (\<open>findall_ARG_PATTERN_nonempty\<close> below), so \<^verbatim>\<open>x[0]\<close> is always there.
\<close>

definition unquote :: "string \<Rightarrow> string" where
  "unquote x =
     (if x \<noteq> [] \<and> hd x = CHR 0x22 \<and> last x = CHR 0x22 then butlast (tl x) else x)"

text \<open>
  \<open>call_function\<close> is a closure over \<^verbatim>\<open>parsed\<close>, \<^verbatim>\<open>allow_callable\<close> and \<^verbatim>\<open>iteration\<close> of the
  enclosing call. \<^verbatim>\<open>findall\<close> on a group that took no part (\<^verbatim>\<open>None\<close>) raises \<^verbatim>\<open>TypeError\<close>,
  and so does \<^verbatim>\<open>getattr\<close> with a name that is \<^verbatim>\<open>None\<close>. An \<^verbatim>\<open>AttributeError\<close> of the lookup or
  of the function itself becomes the exception for a non-existent function. The test for
  an illegal location reads \<^verbatim>\<open>parsed\<close>, the node being evaluated.
\<close>

definition call_function ::
  "'w env \<Rightarrow> pyval \<Rightarrow> bool \<Rightarrow> pyval \<Rightarrow> rmatch \<Rightarrow> 'w \<Rightarrow> (exn + pyval) \<times> 'w" where
  "call_function E parsed allow_callable iteration m w =
     (case group m ''args'' of
        None \<Rightarrow> (Inl TypeError, w)
      | Some a \<Rightarrow>
          (let args = map unquote (findall ARG_PATTERN a) in
           case group m ''function'' of
             None \<Rightarrow> (Inl TypeError, w)
           | Some name \<Rightarrow>
               (case (case getattr_functions E name of
                        None \<Rightarrow> (Inl AttributeError, w)
                      | Some f \<Rightarrow> f args iteration w) of
                  (Inl e, w1) \<Rightarrow>
                    (if e = AttributeError
                     then (Inl (DDEvaluatorException
                             (''attempted call to non-existent function '' @ name)), w1)
                     else (Inl e, w1))
                | (Inr v, w1) \<Rightarrow>
                    if has_call parsed \<and> \<not> allow_callable
                    then (Inl (DDEvaluatorException
                            (''function '' @ name @ '' called from illegal location'')), w1)
                    else if m_start m \<noteq> 0 \<or> m_end m \<noteq> length (m_string m)
                    then (Inr (PStr (py_str E v)), w1)
                    else (Inr v, w1))))"

text \<open>
  \<open>evaluate_object\<close>: the loop over the items of the dict, \<open>evaluated\<close> being the
  \<^verbatim>\<open>OrderedDict\<close> built so far. In \<^verbatim>\<open>evaluated[f(k)] = g(v)\<close> Python evaluates the right-hand
  side first, then the key. \<open>rec\<close> is the recursive call of \<^verbatim>\<open>evaluate_parsed\<close>.
\<close>

fun evaluate_object ::
  "'w evaluator \<Rightarrow> pyval \<Rightarrow> (pyval \<times> pyval) list \<Rightarrow> (pyval \<times> pyval) list \<Rightarrow> 'w
     \<Rightarrow> (exn + pyval) \<times> 'w" where
  "evaluate_object rec iteration [] evaluated w = (Inr (PDict evaluated), w)"
| "evaluate_object rec iteration ((k, v) # rest) evaluated w =
     (case rec v False iteration w of
        (Inl e, w1) \<Rightarrow> (Inl e, w1)
      | (Inr v', w1) \<Rightarrow>
          (case rec k False iteration w1 of
             (Inl e, w2) \<Rightarrow> (Inl e, w2)
           | (Inr k', w2) \<Rightarrow>
               if hashable k' then evaluate_object rec iteration rest (dict_set evaluated k' v') w2
               else (Inl TypeError, w2)))"

text \<open>
  \<open>evaluate_array\<close>: the \<^verbatim>\<open>while\<close> loop, with its variables \<^verbatim>\<open>index\<close> and \<^verbatim>\<open>evaluated\<close>.
\<close>

function evaluate_array ::
  "'w evaluator \<Rightarrow> 'w env \<Rightarrow> pyval list \<Rightarrow> nat \<Rightarrow> pyval list \<Rightarrow> 'w \<Rightarrow> (exn + pyval) \<times> 'w" where
  "evaluate_array rec E parsed_array index evaluated w =
     (if index < length parsed_array then
        (case rec (parsed_array ! index) True (PInt (int index)) w of
           (Inl e, w1) \<Rightarrow> (Inl e, w1)
         | (Inr item, w1) \<Rightarrow>
             if has_call item then
               (case parent_function item of
                  None \<Rightarrow> (Inl AttributeError, w1)
                | Some pf \<Rightarrow>
                    if index + 1 \<ge> length parsed_array
                    then (Inl (DDEvaluatorException
                            (''invalid use of '' @ pf @ '' function at end of array'')), w1)
                    else if ''repeat'' = pf then
                      (case call_deferred E item (parsed_array ! (index + 1)) rec w1 of
                         (Inl e, w2) \<Rightarrow> (Inl e, w2)
                       | (Inr r, w2) \<Rightarrow>
                           (case py_iter r of
                              None \<Rightarrow> (Inl TypeError, w2)
                            | Some ys \<Rightarrow>
                                evaluate_array rec E parsed_array (index + 2) (evaluated @ ys) w2))
                    else if ''random'' = pf then
                      call_deferred E item (PList (drop (index + 1) parsed_array)) rec w1
                    else evaluate_array rec E parsed_array (index + 1) evaluated w1)
             else evaluate_array rec E parsed_array (index + 1) (evaluated @ [item]) w1)
      else (Inr (PList evaluated), w))"
  by pat_completeness auto
termination
  by (relation "measure (\<lambda>(rec, E, parsed_array, index, evaluated, w). length parsed_array - index)")
     auto

declare evaluate_array.simps [simp del]

text \<open>
  One call of \<^verbatim>\<open>evaluate_parsed\<close>, its recursive calls being \<open>rec\<close>. When \<^verbatim>\<open>re.sub\<close> raises
  \<^verbatim>\<open>TypeError\<close>, \<open>call_function\<close> is called again on the first match; \<^verbatim>\<open>search\<close> returning
  \<^verbatim>\<open>None\<close> there would raise \<^verbatim>\<open>AttributeError\<close>.
\<close>

definition evaluate_node ::
  "'w evaluator \<Rightarrow> 'w env \<Rightarrow> pyval \<Rightarrow> bool \<Rightarrow> pyval \<Rightarrow> 'w \<Rightarrow> (exn + pyval) \<times> 'w" where
  "evaluate_node rec E parsed allow_callable iteration w =
     (case parsed of
        PDict d \<Rightarrow> evaluate_object rec iteration d [] w
      | PList xs \<Rightarrow> evaluate_array rec E xs 0 [] w
      | PStr s \<Rightarrow>
          (case re_sub TAG_PATTERN (call_function E parsed allow_callable iteration) s w of
             (r, w1) \<Rightarrow>
               if r = Inl TypeError then
                 (case search TAG_PATTERN s of
                    None \<Rightarrow> (Inl AttributeError, w1)
                  | Some m \<Rightarrow> call_function E parsed allow_callable iteration m w1)
               else (r, w1))
      | _ \<Rightarrow> (Inr parsed, w))"

text \<open>
  \<open>evaluate_parsed n\<close> is \<^verbatim>\<open>evaluate_parsed\<close> with room for \<open>n\<close> nested calls of itself. The
  callback a deferred callable receives is \<^verbatim>\<open>evaluate_parsed\<close> too, one call deeper.
\<close>

primrec evaluate_parsed :: "nat \<Rightarrow> 'w env \<Rightarrow> pyval \<Rightarrow> bool \<Rightarrow> pyval \<Rightarrow> 'w \<Rightarrow> (exn + pyval) \<times> 'w" where
  "evaluate_parsed 0 E = (\<lambda>parsed allow_callable iteration w. (Inl RecursionError, w))"
| "evaluate_parsed (Suc n) E =
     (\<lambda>parsed allow_callable iteration w.
        evaluate_node (evaluate_parsed n E) E parsed allow_callable iteration w)"

subsection \<open>Notions used by the properties\<close>

text \<open>A pattern every match of which consumes at least one character.\<close>

fun consumes :: "re \<Rightarrow> bool" where
  "consumes (Chr P) = True"
| "consumes (Seq a b) = (consumes a \<or> consumes b)"
| "consumes (Alt a b) = (consumes a \<and> consumes b)"
| "consumes (Group g a) = consumes a"
| "consumes r = False"

text \<open>
  The call a tag stands for: the function named by the tag, applied to the unquoted
  argument tokens and the iteration index.
\<close>

definition tag_call :: "'w env \<Rightarrow> pyval \<Rightarrow> rmatch \<Rightarrow> 'w \<Rightarrow> (exn + pyval) \<times> 'w" where
  "tag_call E iteration m w =
     (case group m ''function'' of
        None \<Rightarrow> (Inl TypeError, w)
      | Some name \<Rightarrow>
          (case group m ''args'' of
             None \<Rightarrow> (Inl TypeError, w)
           | Some a \<Rightarrow>
               (case getattr_functions E name of
                  None \<Rightarrow> (Inl AttributeError, w)
                | Some f \<Rightarrow> f (map unquote (findall ARG_PATTERN a)) iteration w)))"

text \<open>
  The text a string with embedded tags should become: from position \<open>pos\<close> on, every tag
  span is replaced by the text form of the value its call returns (the calls are made from
  left to right) and the text between the spans is kept.
\<close>

fun splice ::
  "'w env \<Rightarrow> pyval \<Rightarrow> string \<Rightarrow> nat \<Rightarrow> rmatch list \<Rightarrow> 'w \<Rightarrow> (exn + string) \<times> 'w" where
  "splice E iteration s pos [] w = (Inr (drop pos s), w)"
| "splice E iteration s pos (m # rest) w =
     (case tag_call E iteration m w of
        (Inl e, w1) \<Rightarrow> (Inl e, w1)
      | (Inr v, w1) \<Rightarrow>
          (case splice E iteration s (m_end m) rest w1 of
             (Inl e, w2) \<Rightarrow> (Inl e, w2)
           | (Inr t, w2) \<Rightarrow>
               (Inr (take (m_start m - pos) (drop pos s) @ py_str E v @ t), w2)))"

text \<open>
  The items of a mapping, each value and each key evaluated by \<open>ev\<close>, item by item in the
  original order (the value of an item before its key, as the assignment does); and the
  ordered mapping that results from inserting items one after the other.
\<close>

fun eval_pairs ::
  "(pyval \<Rightarrow> 'w \<Rightarrow> (exn + pyval) \<times> 'w) \<Rightarrow> (pyval \<times> pyval) list \<Rightarrow> 'w
     \<Rightarrow> (exn + (pyval \<times> pyval) list) \<times> 'w" where
  "eval_pairs ev [] w = (Inr [], w)"
| "eval_pairs ev ((k, v) # rest) w =
     (case ev v w of
        (Inl e, w1) \<Rightarrow> (Inl e, w1)
      | (Inr v', w1) \<Rightarrow>
          (case ev k w1 of
             (Inl e, w2) \<Rightarrow> (Inl e, w2)
           | (Inr k', w2) \<Rightarrow>
               (case eval_pairs ev rest w2 of
                  (Inl e, w3) \<Rightarrow> (Inl e, w3)
                | (Inr ps, w3) \<Rightarrow> (Inr ((k', v') # ps), w3))))"

definition insert_all ::
  "(pyval \<times> pyval) list \<Rightarrow> (pyval \<times> pyval) list \<Rightarrow> (pyval \<times> pyval) list" where
  "insert_all d ps = foldl (\<lambda>d kv. dict_set d (fst kv) (snd kv)) d ps"

text \<open>
  A parsed document: dicts, lists, strs and scalars, no callable in it, the keys of every
  dict hashable and pairwise different (as in any Python dict). \<open>depth\<close> is the number of
  nested calls of \<^verbatim>\<open>evaluate_parsed\<close> its evaluation needs. \<open>tag_free\<close>: no str in it
  (keys included) contains a tag.
\<close>

fun document :: "pyval \<Rightarrow> bool" where
  "document (PList xs) = (\<forall>x \<in> set xs. document x)"
| "document (PDict d) =
     ((\<forall>kv \<in> set d. document (fst kv) \<and> document (snd kv) \<and> hashable (fst kv))
      \<and> distinct (map (\<lambda>kv. py_key (fst kv)) d))"
| "document (PCallable pf c) = False"
| "document v = True"

fun depth :: "pyval \<Rightarrow> nat" where
  "depth (PList xs) = Suc (foldr max (map depth xs) 0)"
| "depth (PDict d) = Suc (foldr max (map (\<lambda>kv. max (depth (fst kv)) (depth (snd kv))) d) 0)"
| "depth v = 1"

fun tag_free :: "pyval \<Rightarrow> bool" where
  "tag_free (PStr s) = (search TAG_PATTERN s = None)"
| "tag_free (PList xs) = (\<forall>x \<in> set xs. tag_free x)"
| "tag_free (PDict d) = (\<forall>kv \<in> set d. tag_free (fst kv) \<and> tag_free (snd kv))"
| "tag_free v = True"

text \<open>
  Notions for the groups of a match: a state with more groups below its own, a pattern
  without groups, a property of the first state of a list (the match reported), a state
  in which a group is set.
\<close>

definition with_groups :: "(string \<times> nat \<times> nat) list \<Rightarrow> mstate \<Rightarrow> mstate" where
  "with_groups c st = (fst st, snd st @ c)"

fun groupless :: "re \<Rightarrow> bool" where
  "groupless (Group g a) = False"
| "groupless (Seq a b) = (groupless a \<and> groupless b)"
| "groupless (Alt a b) = (groupless a \<and> groupless b)"
| "groupless (Star a) = groupless a"
| "groupless (StarLazy a) = groupless a"
| "groupless r = True"

definition first_has :: "(mstate \<Rightarrow> bool) \<Rightarrow> mstate list \<Rightarrow> bool" where
  "first_has Q sts = (case sts of [] \<Rightarrow> True | st # _ \<Rightarrow> Q st)"

definition has_group :: "string \<Rightarrow> mstate \<Rightarrow> bool" where
  "has_group g st = (map_of (snd st) g \<noteq> None)"

text \<open>A match that spans the whole string, and the message for a non-existent function.\<close>

definition whole_match :: "rmatch \<Rightarrow> bool" where
  "whole_match m = (m_start m = 0 \<and> m_end m = length (m_string m))"

definition unknown_message :: "rmatch \<Rightarrow> string" where
  "unknown_message m = ''attempted call to non-existent function ''
     @ (case group m ''function'' of None \<Rightarrow> [] | Some name \<Rightarrow> name)"

subsection \<open>A small registry for concrete evaluations\<close>

text \<open>
  The state is a counter of the calls made. \<^verbatim>\<open>seq\<close> returns 7, \<^verbatim>\<open>index\<close> returns the
  text of its iteration index, \<^verbatim>\<open>nothing\<close> returns \<^verbatim>\<open>None\<close>, \<^verbatim>\<open>count\<close> returns the number of calls made so
  far, \<^verbatim>\<open>name\<close> returns a str; each call adds one to the counter. \<^verbatim>\<open>repeat\<close> returns a callable
  that evaluates its template as many times as its first argument says, with the
  iteration indices 0, 1, ...; \<^verbatim>\<open>random\<close> returns a callable that evaluates the first
  element of the rest of the list and returns it in a list. \<^verbatim>\<open>__name__\<close> is the attribute
  every module has, a str: calling it raises \<^verbatim>\<open>TypeError\<close> and changes nothing. No other name
  is an attribute.
\<close>

definition nat_of_str :: "string \<Rightarrow> nat" where
  "nat_of_str a = foldl (\<lambda>n c. 10 * n + (of_char c - 48)) 0 a"

definition demo_functions ::
  "string \<Rightarrow> (string list \<Rightarrow> pyval \<Rightarrow> nat \<Rightarrow> (exn + pyval) \<times> nat) option" where
  "demo_functions name =
     (if name = ''seq'' then Some (\<lambda>args iteration w. (Inr (PInt 7), Suc w))
      else if name = ''index'' then
        Some (\<lambda>args iteration w.
          (Inr (PStr (case iteration of PInt i \<Rightarrow> str_int i | _ \<Rightarrow> ''None'')), Suc w))
      else if name = ''nothing'' then Some (\<lambda>args iteration w. (Inr PNone, Suc w))
      else if name = ''count'' then Some (\<lambda>args iteration w. (Inr (PInt (int (Suc w))), Suc w))
      else if name = ''name'' then Some (\<lambda>args iteration w. (Inr (PStr ''Ann''), Suc w))
      else if name = ''repeat'' then
        Some (\<lambda>args iteration w.
          (Inr (PCallable (Some ''repeat'') (case args of [] \<Rightarrow> 0 | a # _ \<Rightarrow> nat_of_str a)), Suc w))
      else if name = ''random'' then
        Some (\<lambda>args iteration w. (Inr (PCallable (Some ''random'') 0), Suc w))
      else if name = ''__name__'' then Some (\<lambda>args iteration w. (Inl TypeError, w))
      else None)"

fun demo_copies ::
  "nat evaluator \<Rightarrow> pyval \<Rightarrow> nat \<Rightarrow> nat \<Rightarrow> nat \<Rightarrow> (exn + pyval list) \<times> nat" where
  "demo_copies ev x i 0 w = (Inr [], w)"
| "demo_copies ev x i (Suc c) w =
     (case ev x False (PInt (int i)) w of
        (Inl e, w1) \<Rightarrow> (Inl e, w1)
      | (Inr v, w1) \<Rightarrow>
          (case demo_copies ev x (Suc i) c w1 of
             (Inl e, w2) \<Rightarrow> (Inl e, w2)
           | (Inr vs, w2) \<Rightarrow> (Inr (v # vs), w2)))"

definition demo_call_deferred ::
  "pyval \<Rightarrow> pyval \<Rightarrow> nat evaluator \<Rightarrow> nat \<Rightarrow> (exn + pyval) \<times> nat" where
  "demo_call_deferred item x ev w =
     (case item of
        PCallable pf c \<Rightarrow>
          (if pf = Some ''repeat'' then
             (case demo_copies ev x 0 c w of
                (Inl e, w1) \<Rightarrow> (Inl e, w1)
              | (Inr vs, w1) \<Rightarrow> (Inr (PList vs), w1))
           else
             (case x of
                PList (y # ys) \<Rightarrow>
                  (case ev y False PNone w of
                     (Inl e, w1) \<Rightarrow> (Inl e, w1)
                   | (Inr v, w1) \<Rightarrow> (Inr (PList [v]), w1))
              | _ \<Rightarrow> (Inl (OtherError ''IndexError''), w)))
      | _ \<Rightarrow> (Inl TypeError, w))"

definition demo_env :: "nat env" where
  "demo_env = \<lparr>getattr_functions = demo_functions, call_deferred = demo_call_deferred,
     str_other = (\<lambda>v. ''<object>'')\<rparr>"

section \<open>Properties of the matcher\<close>

text \<open>
  Every state the matcher reaches lies at or after the state it started from and inside
  the subject; a pattern that \<open>consumes\<close> moves forward.
\<close>

lemma iter_greedy_range:
  assumes "\<And>st st'. st' \<in> set (f st) \<Longrightarrow> fst st \<le> fst st' \<and> (fst st \<le> L \<longrightarrow> fst st' \<le> L)"
  shows "st' \<in> set (iter_greedy n f st) \<Longrightarrow> fst st \<le> fst st' \<and> (fst st \<le> L \<longrightarrow> fst st' \<le> L)"
proof (induction n arbitrary: st)
  case 0
  then show ?case by simp
next
  case (Suc n)
  from Suc.prems consider "st' = st"
    | st1 where "st1 \<in> set (f st)" "st' \<in> set (iter_greedy n f st1)"
    by auto
  then show ?case
  proof cases
    case 1
    then show ?thesis by simp
  next
    case 2
    from assms [OF 2(1)] Suc.IH [OF 2(2)] show ?thesis by auto
  qed
qed

lemma iter_lazy_range:
  assumes "\<And>st st'. st' \<in> set (f st) \<Longrightarrow> fst st \<le> fst st' \<and> (fst st \<le> L \<longrightarrow> fst st' \<le> L)"
  shows "st' \<in> set (iter_lazy n f st) \<Longrightarrow> fst st \<le> fst st' \<and> (fst st \<le> L \<longrightarrow> fst st' \<le> L)"
proof (induction n arbitrary: st)
  case 0
  then show ?case by simp
next
  case (Suc n)
  from Suc.prems consider "st' = st"
    | st1 where "st1 \<in> set (f st)" "st' \<in> set (iter_lazy n f st1)"
    by auto
  then show ?case
  proof cases
    case 1
    then show ?thesis by simp
  next
    case 2
    from assms [OF 2(1)] Suc.IH [OF 2(2)] show ?thesis by auto
  qed
qed

lemma ms_range:
  "st' \<in> set (ms r s st) \<Longrightarrow> fst st \<le> fst st' \<and> (fst st \<le> length s \<longrightarrow> fst st' \<le> length s)"
proof (induction r arbitrary: st st')
  case (Chr P)
  then show ?case by (auto split: if_splits)
next
  case (Seq a b)
  from Seq.prems obtain st1 where "st1 \<in> set (ms a s st)" "st' \<in> set (ms b s st1)"
    by auto
  with Seq.IH(1) [of st1 st] Seq.IH(2) [of st' st1] show ?case by auto
next
  case (Alt a b)
  from Alt.prems have "st' \<in> set (ms a s st) \<or> st' \<in> set (ms b s st)" by simp
  with Alt.IH show ?case by blast
next
  case (Star a)
  have step: "\<And>st st'. st' \<in> set (ms a s st) \<Longrightarrow>
      fst st \<le> fst st' \<and> (fst st \<le> length s \<longrightarrow> fst st' \<le> length s)"
    by (rule Star.IH)
  from Star.prems have "st' \<in> set (iter_greedy (length s - fst st) (ms a s) st)" by simp
  from iter_greedy_range [of "ms a s" "length s", OF step this] show ?case .
next
  case (StarLazy a)
  have step: "\<And>st st'. st' \<in> set (ms a s st) \<Longrightarrow>
      fst st \<le> fst st' \<and> (fst st \<le> length s \<longrightarrow> fst st' \<le> length s)"
    by (rule StarLazy.IH)
  from StarLazy.prems have "st' \<in> set (iter_lazy (length s - fst st) (ms a s) st)" by simp
  from iter_lazy_range [of "ms a s" "length s", OF step this] show ?case .
next
  case (Ahead a)
  then show ?case by (simp split: if_splits)
next
  case (NotAhead a)
  then show ?case by (simp split: if_splits)
next
  case (NotBehind P)
  then show ?case by (simp split: if_splits)
next
  case WordB
  then show ?case by (simp split: if_splits)
next
  case (Group g a)
  from Group.prems obtain st1 where st1: "st1 \<in> set (ms a s st)" and eq: "fst st' = fst st1"
    by auto
  from Group.IH [OF st1] eq show ?case by simp
qed simp

lemma ms_progress:
  "consumes r \<Longrightarrow> st' \<in> set (ms r s st) \<Longrightarrow> fst st < fst st'"
proof (induction r arbitrary: st st')
  case (Chr P)
  then show ?case by (simp split: if_splits)
next
  case (Seq a b)
  from Seq.prems obtain st1 where st1: "st1 \<in> set (ms a s st)" "st' \<in> set (ms b s st1)"
    by auto
  from st1 ms_range [of st1 a s st] ms_range [of st' b s st1]
  have le: "fst st \<le> fst st1" "fst st1 \<le> fst st'" by auto
  from Seq.prems(1) have "consumes a \<or> consumes b" by simp
  then show ?case
  proof
    assume "consumes a"
    from Seq.IH(1) [OF this st1(1)] le show ?thesis by simp
  next
    assume "consumes b"
    from Seq.IH(2) [OF this st1(2)] le show ?thesis by simp
  qed
next
  case (Alt a b)
  from Alt.prems have "consumes a" "consumes b"
    and "st' \<in> set (ms a s st) \<or> st' \<in> set (ms b s st)" by simp_all
  with Alt.IH show ?case by blast
next
  case (Group g a)
  from Group.prems obtain st1 where st1: "st1 \<in> set (ms a s st)" and eq: "fst st' = fst st1"
    by auto
  from Group.prems(1) have "consumes a" by simp
  from Group.IH [OF this st1] eq show ?case by simp
qed simp_all

lemma consumes_TAG_PATTERN: "consumes TAG_PATTERN"
  by (simp add: TAG_PATTERN_def seqs_def lit_def)

lemma consumes_ARG_PATTERN: "consumes ARG_PATTERN"
  by (simp add: ARG_PATTERN_def ARG_number_def ARG_quoted_def ARG_bare_def alts_def seqs_def
      lit_def Plus_def PlusLazy_def Opt_def)

lemma match_at_Some:
  assumes "match_at r s p = Some m"
  shows "m_string m = s" and "m_start m = p" and "p \<le> m_end m"
    and "p \<le> length s \<Longrightarrow> m_end m \<le> length s"
    and "consumes r \<Longrightarrow> p < m_end m"
proof -
  from assms obtain st sts where st: "ms r s (p, []) = st # sts"
    and m: "m = \<lparr>m_string = s, m_start = p, m_end = fst st, m_groups = snd st\<rparr>"
    by (auto simp: match_at_def split: list.splits)
  from st have mem: "st \<in> set (ms r s (p, []))" by simp
  show "m_string m = s" "m_start m = p" using m by simp_all
  from ms_range [OF mem] m show "p \<le> m_end m" by simp
  from ms_range [OF mem] m show "p \<le> length s \<Longrightarrow> m_end m \<le> length s" by simp
  from ms_progress [OF _ mem] m show "consumes r \<Longrightarrow> p < m_end m" by simp
qed

lemma search_from_Some:
  "search_from r s p = Some m \<Longrightarrow>
     m_string m = s \<and> p \<le> m_start m \<and> m_start m \<le> m_end m \<and> m_end m \<le> length s
     \<and> (consumes r \<longrightarrow> m_start m < m_end m)"
proof (induction r s p rule: search_from.induct)
  case (1 r s p)
  show ?case
  proof (cases "match_at r s p")
    case None
    with "1.prems" have le: "\<not> length s < p" and "search_from r s (Suc p) = Some m"
      by (auto simp: search_from.simps [of r s p] split: if_splits)
    with "1.IH" [OF le None] show ?thesis by auto
  next
    case (Some m')
    with "1.prems" have le: "p \<le> length s" and "m' = m"
      by (auto simp: search_from.simps [of r s p] split: if_splits)
    with match_at_Some [of r s p m] Some show ?thesis by auto
  qed
qed

lemma search_from_end:
  assumes "consumes r"
  shows "search_from r s (length s) = None"
proof -
  have "match_at r s (length s) = None"
  proof (cases "match_at r s (length s)")
    case (Some m)
    from match_at_Some(4,5) [OF Some] assms show ?thesis by auto
  qed simp
  then show ?thesis
    by (simp add: search_from.simps [of r s "length s"] search_from.simps [of r s "Suc (length s)"])
qed

lemma finditer_from_mem:
  "m \<in> set (finditer_from r s p) \<Longrightarrow>
     m_string m = s \<and> p \<le> m_start m \<and> m_start m \<le> m_end m \<and> m_end m \<le> length s
     \<and> (consumes r \<longrightarrow> m_start m < m_end m)"
proof (induction r s p rule: finditer_from.induct)
  case (1 r s p)
  show ?case
  proof (cases "search_from r s p")
    case None
    with "1.prems" show ?thesis by (simp add: finditer_from.simps [of r s p])
  next
    case (Some m')
    note facts = search_from_Some [OF Some]
    show ?thesis
    proof (cases "p < m_end m' \<and> m_end m' \<le> length s")
      case True
      with "1.prems" Some have "m = m' \<or> m \<in> set (finditer_from r s (m_end m'))"
        by (simp add: finditer_from.simps [of r s p])
      then show ?thesis
      proof
        assume "m = m'"
        with facts show ?thesis by simp
      next
        assume "m \<in> set (finditer_from r s (m_end m'))"
        from "1.IH" [OF Some True this] True show ?thesis by auto
      qed
    next
      case False
      with "1.prems" Some have "m = m'"
        by (simp add: finditer_from.simps [of r s p])
      with facts show ?thesis by simp
    qed
  qed
qed

lemma findall_ARG_PATTERN_nonempty: "x \<in> set (findall ARG_PATTERN a) \<Longrightarrow> x \<noteq> []"
proof -
  assume "x \<in> set (findall ARG_PATTERN a)"
  then obtain m where m: "m \<in> set (finditer_from ARG_PATTERN a 0)"
    and x: "x = take (m_end m - m_start m) (drop (m_start m) a)"
    by (auto simp: findall_def finditer_def)
  from finditer_from_mem [OF m] consumes_ARG_PATTERN
  have "m_start m < m_end m" "m_end m \<le> length a" by auto
  with x show "x \<noteq> []" by auto
qed

lemma finditer_whole:
  assumes "consumes r" and "search r s = Some m" and "m_end m = length s"
  shows "finditer r s = [m]"
proof -
  from assms(2) have s0: "search_from r s 0 = Some m" by (simp add: search_def)
  from search_from_Some [OF s0] assms(1) have "0 < m_end m" by auto
  with s0 assms(3) search_from_end [OF assms(1), of s] show ?thesis
    by (simp add: finditer_def finditer_from.simps [of r s 0] finditer_from.simps [of r s "length s"])
qed

lemma finditer_none: "search r s = None \<Longrightarrow> finditer r s = []"
  by (simp add: search_def finditer_def finditer_from.simps [of r s 0])


text \<open>
  The groups closed before a pattern starts do not influence how it matches; a pattern
  without groups leaves them as they are. Hence the optional group \<^verbatim>\<open>args\<close> always takes
  part in the match that is reported: every match of \<open>TAG_PATTERN\<close> has its two groups.
\<close>

lemma iter_greedy_groups:
  assumes "\<And>st. f (with_groups c st) = map (with_groups c) (f st)"
  shows "iter_greedy n f (with_groups c st) = map (with_groups c) (iter_greedy n f st)"
proof (induction n arbitrary: st)
  case 0
  then show ?case by simp
next
  case (Suc n)
  have flt: "filter (\<lambda>st'. fst (with_groups c st) < fst st') (map (with_groups c) (f st))
      = map (with_groups c) (filter (\<lambda>st'. fst st < fst st') (f st))"
    by (simp add: filter_map o_def with_groups_def)
  show ?case
    by (simp add: assms flt map_concat o_def Suc.IH)
qed

lemma iter_lazy_groups:
  assumes "\<And>st. f (with_groups c st) = map (with_groups c) (f st)"
  shows "iter_lazy n f (with_groups c st) = map (with_groups c) (iter_lazy n f st)"
proof (induction n arbitrary: st)
  case 0
  then show ?case by simp
next
  case (Suc n)
  have flt: "filter (\<lambda>st'. fst (with_groups c st) < fst st') (map (with_groups c) (f st))
      = map (with_groups c) (filter (\<lambda>st'. fst st < fst st') (f st))"
    by (simp add: filter_map o_def with_groups_def)
  show ?case
    by (simp add: assms flt map_concat o_def Suc.IH)
qed

lemma ms_groups: "ms r s (with_groups c st) = map (with_groups c) (ms r s st)"
proof (induction r arbitrary: st)
  case (Chr P)
  show ?case by (simp add: with_groups_def)
next
  case Eps
  show ?case by simp
next
  case (Seq a b)
  show ?case by (simp add: Seq.IH map_concat o_def)
next
  case (Alt a b)
  show ?case by (simp add: Alt.IH)
next
  case (Star a)
  have "iter_greedy (length s - fst st) (ms a s) (with_groups c st)
      = map (with_groups c) (iter_greedy (length s - fst st) (ms a s) st)"
    by (rule iter_greedy_groups) (rule Star.IH)
  then show ?case by (simp add: with_groups_def)
next
  case (StarLazy a)
  have "iter_lazy (length s - fst st) (ms a s) (with_groups c st)
      = map (with_groups c) (iter_lazy (length s - fst st) (ms a s) st)"
    by (rule iter_lazy_groups) (rule StarLazy.IH)
  then show ?case by (simp add: with_groups_def)
next
  case (Ahead a)
  show ?case by (simp add: Ahead.IH)
next
  case (NotAhead a)
  show ?case by (simp add: NotAhead.IH)
next
  case (NotBehind P)
  show ?case by (simp add: with_groups_def)
next
  case WordB
  show ?case by (simp add: with_groups_def)
next
  case (Group g a)
  show ?case by (simp add: Group.IH o_def) (simp add: with_groups_def)
qed

lemma ms_same_position:
  "ms r s (p, c) = [] \<longleftrightarrow> ms r s (p, c') = []"
proof -
  have "ms r s (p, c) = map (with_groups c) (ms r s (p, []))"
    using ms_groups [of r s c "(p, [])"] by (simp add: with_groups_def)
  moreover have "ms r s (p, c') = map (with_groups c') (ms r s (p, []))"
    using ms_groups [of r s c' "(p, [])"] by (simp add: with_groups_def)
  ultimately show ?thesis by simp
qed

lemma iter_greedy_keeps:
  assumes "\<And>st st'. st' \<in> set (f st) \<Longrightarrow> snd st' = snd st"
  shows "st' \<in> set (iter_greedy n f st) \<Longrightarrow> snd st' = snd st"
proof (induction n arbitrary: st)
  case 0
  then show ?case by simp
next
  case (Suc n)
  from Suc.prems consider "st' = st"
    | st1 where "st1 \<in> set (f st)" "st' \<in> set (iter_greedy n f st1)"
    by auto
  then show ?case
  proof cases
    case 1
    then show ?thesis by simp
  next
    case 2
    from assms [OF 2(1)] Suc.IH [OF 2(2)] show ?thesis by simp
  qed
qed

lemma iter_lazy_keeps:
  assumes "\<And>st st'. st' \<in> set (f st) \<Longrightarrow> snd st' = snd st"
  shows "st' \<in> set (iter_lazy n f st) \<Longrightarrow> snd st' = snd st"
proof (induction n arbitrary: st)
  case 0
  then show ?case by simp
next
  case (Suc n)
  from Suc.prems consider "st' = st"
    | st1 where "st1 \<in> set (f st)" "st' \<in> set (iter_lazy n f st1)"
    by auto
  then show ?case
  proof cases
    case 1
    then show ?thesis by simp
  next
    case 2
    from assms [OF 2(1)] Suc.IH [OF 2(2)] show ?thesis by simp
  qed
qed

lemma ms_groupless:
  "groupless r \<Longrightarrow> st' \<in> set (ms r s st) \<Longrightarrow> snd st' = snd st"
proof (induction r arbitrary: st st')
  case (Chr P)
  then show ?case by (auto split: if_splits)
next
  case (Seq a b)
  from Seq.prems obtain st1 where "st1 \<in> set (ms a s st)" "st' \<in> set (ms b s st1)"
    by auto
  moreover from Seq.prems(1) have "groupless a" "groupless b" by simp_all
  ultimately show ?case using Seq.IH(1) [of st1 st] Seq.IH(2) [of st' st1] by simp
next
  case (Alt a b)
  from Alt.prems have ab: "groupless a" "groupless b"
    and "st' \<in> set (ms a s st) \<or> st' \<in> set (ms b s st)" by simp_all
  then show ?case using Alt.IH(1) [OF ab(1)] Alt.IH(2) [OF ab(2)] by blast
next
  case (Star a)
  from Star.prems(1) have step: "\<And>st st'. st' \<in> set (ms a s st) \<Longrightarrow> snd st' = snd st"
    using Star.IH by simp
  from Star.prems(2) have "st' \<in> set (iter_greedy (length s - fst st) (ms a s) st)" by simp
  from iter_greedy_keeps [of "ms a s", OF step this] show ?case .
next
  case (StarLazy a)
  from StarLazy.prems(1) have step: "\<And>st st'. st' \<in> set (ms a s st) \<Longrightarrow> snd st' = snd st"
    using StarLazy.IH by simp
  from StarLazy.prems(2) have "st' \<in> set (iter_lazy (length s - fst st) (ms a s) st)" by simp
  from iter_lazy_keeps [of "ms a s", OF step this] show ?case .
next
  case (Ahead a)
  then show ?case by (simp split: if_splits)
next
  case (NotAhead a)
  then show ?case by (simp split: if_splits)
next
  case (NotBehind P)
  then show ?case by (simp split: if_splits)
next
  case WordB
  then show ?case by (simp split: if_splits)
next
  case (Group g a)
  then show ?case by simp
qed simp

lemma first_has_concat:
  "(\<forall>x \<in> set xs. first_has Q (f x)) \<Longrightarrow> first_has Q (concat (map f xs))"
proof (induction xs)
  case Nil
  then show ?case by (simp add: first_has_def)
next
  case (Cons x xs)
  then show ?case by (cases "f x") (simp_all add: first_has_def)
qed

lemma first_has_Seq:
  "(\<And>st1. st1 \<in> set (ms a s st) \<Longrightarrow> first_has Q (ms b s st1)) \<Longrightarrow> first_has Q (ms (Seq a b) s st)"
  by (simp add: first_has_concat)

lemma iter_lazy_first: "\<exists>rest. iter_lazy n f st = st # rest"
  by (cases n) simp_all

lemma optional_group_first:
  assumes gl: "groupless t" and gla: "groupless a" and fn: "has_group ''function'' st"
  shows "first_has (\<lambda>st'. has_group ''function'' st' \<and> has_group ''args'' st')
           (ms (Seq (Opt (Group ''args'' (StarLazy a))) t) s st)"
proof -
  let ?Q = "\<lambda>st'. has_group ''function'' st' \<and> has_group ''args'' st'"
  let ?G = "ms (Group ''args'' (StarLazy a)) s st"
  obtain rest where it: "iter_lazy (length s - fst st) (ms a s) st = st # rest"
    using iter_lazy_first by blast
  define st0 where "st0 = (fst st, (''args'', fst st, fst st) # snd st)"
  from it have G: "\<exists>more. ?G = st0 # more"
    by (simp add: st0_def)
  have keep: "?Q y" if x: "x \<in> set ?G" and y: "y \<in> set (ms t s x)" for x y
  proof -
    from x obtain x' where x': "x' \<in> set (ms (StarLazy a) s st)"
      and sx: "snd x = (''args'', fst st, fst x') # snd x'" by auto
    from gla have "groupless (StarLazy a)" by simp
    from ms_groupless [OF this x'] sx have "snd x = (''args'', fst st, fst x') # snd st" by simp
    with ms_groupless [OF gl y] fn show "?Q y" by (simp add: has_group_def)
  qed
  have res: "ms (Seq (Opt (Group ''args'' (StarLazy a))) t) s st
      = concat (map (ms t s) ?G) @ ms t s st"
    by (simp add: Opt_def)
  show ?thesis
  proof (cases "concat (map (ms t s) ?G)")
    case Nil
    with G have "ms t s st0 = []" by auto
    then have "ms t s st = []"
      using ms_same_position [of t s "fst st" "(''args'', fst st, fst st) # snd st" "snd st"]
      by (simp add: st0_def)
    then show ?thesis unfolding res Nil by (simp add: first_has_def)
  next
    case (Cons y ys)
    then have "y \<in> set (concat (map (ms t s) ?G))" by simp
    then obtain x where "x \<in> set ?G" "y \<in> set (ms t s x)" by auto
    from keep [OF this] show ?thesis unfolding res Cons by (simp add: first_has_def)
  qed
qed

lemma ms_TAG_PATTERN_groups:
  "first_has (\<lambda>st'. has_group ''function'' st' \<and> has_group ''args'' st')
     (ms TAG_PATTERN s st)"
proof -
  let ?Q = "\<lambda>st'. has_group ''function'' st' \<and> has_group ''args'' st'"
  let ?F = "Group ''function'' (seqs [WordB, Plus (Chr is_word), WordB])"
  let ?A = "seqs [Star (Chr is_space), Plus (Chr (\<lambda>c. \<not> is_space c))]"
  let ?T = "seqs [Star (Chr is_space), lit CHR ''%'', lit CHR ''}'']"
  have shape: "TAG_PATTERN = Seq (lit CHR ''{'') (Seq (lit CHR ''%'') (Seq (Star (Chr is_space))
      (Seq ?F (Seq (Opt (Group ''args'' (StarLazy ?A))) ?T))))"
    by (simp add: TAG_PATTERN_def seqs_def)
  have gl: "groupless ?T" by (simp add: seqs_def lit_def)
  have gla: "groupless ?A" by (simp add: seqs_def Plus_def)
  have inner: "first_has ?Q (ms (Seq (Opt (Group ''args'' (StarLazy ?A))) ?T) s st4)"
    if "st4 \<in> set (ms ?F s st3)" for st3 st4
  proof -
    from that have "has_group ''function'' st4" by (auto simp: has_group_def)
    from optional_group_first [OF gl gla this] show ?thesis .
  qed
  show ?thesis
    unfolding shape
    by (rule first_has_Seq, rule first_has_Seq, rule first_has_Seq, rule first_has_Seq,
        erule inner)
qed

lemma match_at_TAG_PATTERN_groups:
  assumes "match_at TAG_PATTERN s p = Some m"
  shows "\<exists>name a. group m ''function'' = Some name \<and> group m ''args'' = Some a"
proof -
  from assms obtain st sts where st: "ms TAG_PATTERN s (p, []) = st # sts"
    and m: "m = \<lparr>m_string = s, m_start = p, m_end = fst st, m_groups = snd st\<rparr>"
    by (auto simp: match_at_def split: list.splits)
  from ms_TAG_PATTERN_groups [of s "(p, [])"] st
  have "has_group ''function'' st \<and> has_group ''args'' st" by (simp add: first_has_def)
  with m show ?thesis by (auto simp: has_group_def group_def split: prod.splits)
qed

lemma search_from_match_at:
  "search_from r s p = Some m \<Longrightarrow> \<exists>q. match_at r s q = Some m"
proof (induction r s p rule: search_from.induct)
  case (1 r s p)
  show ?case
  proof (cases "match_at r s p")
    case None
    with "1.prems" have le: "\<not> length s < p" and "search_from r s (Suc p) = Some m"
      by (auto simp: search_from.simps [of r s p] split: if_splits)
    with "1.IH" [OF le None] show ?thesis by simp
  next
    case (Some m')
    with "1.prems" have "m' = m"
      by (auto simp: search_from.simps [of r s p] split: if_splits)
    with Some show ?thesis by blast
  qed
qed

lemma finditer_from_match_at:
  "m \<in> set (finditer_from r s p) \<Longrightarrow> \<exists>q. match_at r s q = Some m"
proof (induction r s p rule: finditer_from.induct)
  case (1 r s p)
  show ?case
  proof (cases "search_from r s p")
    case None
    with "1.prems" show ?thesis by (simp add: finditer_from.simps [of r s p])
  next
    case (Some m')
    show ?thesis
    proof (cases "m = m'")
      case True
      with search_from_match_at [OF Some] show ?thesis by simp
    next
      case False
      with "1.prems" Some have g: "p < m_end m' \<and> m_end m' \<le> length s"
        and "m \<in> set (finditer_from r s (m_end m'))"
        by (auto simp: finditer_from.simps [of r s p] split: if_splits)
      from "1.IH" [OF Some g this(2)] show ?thesis .
    qed
  qed
qed

lemma tag_groups:
  "m \<in> set (finditer TAG_PATTERN s) \<Longrightarrow>
     \<exists>name a. group m ''function'' = Some name \<and> group m ''args'' = Some a"
  using finditer_from_match_at [of m TAG_PATTERN s 0] match_at_TAG_PATTERN_groups
  by (auto simp: finditer_def)

section \<open>Text nodes\<close>

text \<open>
  On a str node \<open>call_function\<close> makes the call the tag stands for; an \<^verbatim>\<open>AttributeError\<close>
  becomes the exception for a non-existent function, and the value is turned into text
  unless the match spans the whole string. The test for an illegal location never fires,
  a str having no \<^verbatim>\<open>__call__\<close>.
\<close>

lemma call_function_str:
  "call_function E (PStr s) ac it m w =
     (case tag_call E it m w of
        (Inl e, w1) \<Rightarrow>
          (Inl (if e = AttributeError then DDEvaluatorException (unknown_message m) else e), w1)
      | (Inr v, w1) \<Rightarrow> (Inr (if whole_match m then v else PStr (py_str E v)), w1))"
  by (auto simp: call_function_def tag_call_def whole_match_def unknown_message_def Let_def
      split: option.splits prod.splits sum.splits)

lemma str_join_single:
  "str_join [PStr [], v, PStr []] = (if is_str v then Inr v else Inl TypeError)"
  by (cases v) (simp_all add: str_join_def)

text \<open>
  A string that is exactly one tag: the value of the call is returned when it is a str;
  \<^verbatim>\<open>None\<close> is dropped by \<^verbatim>\<open>re.sub\<close> and the empty string results; for any other value the join
  fails and the call is made a second time.
\<close>

lemma evaluate_whole_tag:
  assumes m: "search TAG_PATTERN s = Some m" and whole: "m_start m = 0" "m_end m = length s"
  shows "evaluate_node rec E (PStr s) ac it w =
     (case call_function E (PStr s) ac it m w of
        (Inl e, w1) \<Rightarrow>
          if e = TypeError then call_function E (PStr s) ac it m w1 else (Inl e, w1)
      | (Inr v, w1) \<Rightarrow>
          if v = PNone then (Inr (PStr []), w1)
          else if is_str v then (Inr v, w1)
          else call_function E (PStr s) ac it m w1)"
proof -
  have fi: "finditer TAG_PATTERN s = [m]"
    using finditer_whole [OF consumes_TAG_PATTERN m whole(2)] .
  show ?thesis
  proof (cases "call_function E (PStr s) ac it m w")
    case (Pair r w1)
    show ?thesis
    proof (cases r)
      case (Inl e)
      with Pair fi m show ?thesis
        by (simp add: evaluate_node_def re_sub_def)
    next
      case (Inr v)
      with Pair fi m whole show ?thesis
        by (simp add: evaluate_node_def re_sub_def str_join_single)
           (simp add: str_join_def)
    qed
  qed
qed

lemma search_string: "search r s = Some m \<Longrightarrow> m_string m = s"
  using search_from_Some [of r s 0 m] by (simp add: search_def)

lemma whole_tag_str_value:
  assumes "search TAG_PATTERN s = Some m" and "m_start m = 0" and "m_end m = length s"
    and "tag_call E it m w = (Inr (PStr v), w1)"
  shows "evaluate_parsed (Suc n) E (PStr s) ac it w = (Inr (PStr v), w1)"
proof -
  from assms(1-3) have "whole_match m" by (simp add: whole_match_def search_string)
  with assms(4) show ?thesis
    by (simp add: evaluate_whole_tag [OF assms(1-3)] call_function_str)
qed

lemma finditer_whole_single:
  assumes c: "consumes r" and mem: "m \<in> set (finditer r s)" and whole: "whole_match m"
  shows "finditer r s = [m]"
proof (cases "search_from r s 0")
  case None
  with mem show ?thesis by (simp add: finditer_def finditer_from.simps [of r s 0])
next
  case (Some m0)
  note facts = search_from_Some [OF Some]
  from facts c have pos: "0 < m_end m0" by auto
  have "m = m0"
  proof (rule ccontr)
    assume neq: "m \<noteq> m0"
    with mem Some have "m \<in> set (finditer_from r s (m_end m0))"
      by (auto simp: finditer_def finditer_from.simps [of r s 0] split: if_splits)
    from finditer_from_mem [OF this] pos whole show False by (simp add: whole_match_def)
  qed
  with whole facts have "m_end m0 = length s" by (simp add: whole_match_def)
  moreover from Some have "search r s = Some m0" by (simp add: search_def)
  ultimately show ?thesis using finditer_whole [OF c] \<open>m = m0\<close> by simp
qed

lemma sub_pieces_splice:
  assumes "\<forall>m \<in> set tags. \<not> whole_match m"
    and "splice E it s pos tags w = (Inr t, w')"
  shows "\<exists>ps. sub_pieces (call_function E (PStr s) ac it) s pos tags w = (Inr ps, w')
           \<and> list_all is_str ps \<and> concat (map the_str ps) = t"
  using assms
proof (induction tags arbitrary: pos w t)
  case Nil
  then show ?case by auto
next
  case (Cons m rest)
  from Cons.prems(2) obtain v w1 t' where
    call: "tag_call E it m w = (Inr v, w1)"
    and rest: "splice E it s (m_end m) rest w1 = (Inr t', w')"
    and t: "t = take (m_start m - pos) (drop pos s) @ py_str E v @ t'"
    by (auto split: prod.splits sum.splits)
  from Cons.prems(1) have nw: "\<not> whole_match m" and nwr: "\<forall>m \<in> set rest. \<not> whole_match m"
    by simp_all
  from Cons.IH [OF nwr rest] obtain ps where
    ps: "sub_pieces (call_function E (PStr s) ac it) s (m_end m) rest w1 = (Inr ps, w')"
      "list_all is_str ps" "concat (map the_str ps) = t'"
    by blast
  from call nw have "call_function E (PStr s) ac it m w = (Inr (PStr (py_str E v)), w1)"
    by (simp add: call_function_str)
  with ps t show ?case by simp
qed

lemma sub_pieces_raise:
  "sub_pieces f s pos pre w = (Inr ps, w1) \<Longrightarrow> f m w1 = (Inl e, w2)
     \<Longrightarrow> sub_pieces f s pos (pre @ m # post) w = (Inl e, w2)"
proof (induction pre arbitrary: pos w ps)
  case Nil
  then show ?case by simp
next
  case (Cons m' pre)
  from Cons.prems(1) obtain v wa ps' where
    a: "f m' w = (Inr v, wa)" and b: "sub_pieces f s (m_end m') pre wa = (Inr ps', w1)"
    by (auto split: prod.splits sum.splits)
  from Cons.IH [OF b Cons.prems(2)] a show ?case by simp
qed

lemma tag_call_absent:
  "group m ''function'' = Some name \<Longrightarrow> group m ''args'' = Some a
     \<Longrightarrow> getattr_functions E name = None \<Longrightarrow> tag_call E it m w = (Inl AttributeError, w)"
  by (simp add: tag_call_def)

lemma evaluate_array_raise:
  "i < length xs \<Longrightarrow> rec (xs ! i) True (PInt (int i)) w = (Inl e, w1)
     \<Longrightarrow> evaluate_array rec E xs i acc w = (Inl e, w1)"
  by (simp add: evaluate_array.simps [of rec E xs i])

text \<open>
  C4. A text node that is exactly one tag should evaluate to the raw value its function
  returns, whatever its type. The code does not do so for a function that returns \<^verbatim>\<open>None\<close>:
  with \<^verbatim>\<open>nothing\<close> returning \<^verbatim>\<open>None\<close>, the node \<^verbatim>\<open>"{% nothing %}"\<close> evaluates to the empty string
  (after one call), not to \<^verbatim>\<open>None\<close>.
\<close>

theorem whole_tag_returning_None:
  "evaluate_parsed 1 demo_env (PStr ''{% nothing %}'') False PNone 0 = (Inr (PStr []), 1)"
  by code_simp

text \<open>
  For a text node that is exactly one tag whose function returns a value that is neither
  a str nor \<^verbatim>\<open>None\<close>, the function is called twice in one evaluation of the node, the second
  time in the state the first call left, and the node evaluates to the value of the second
  call.
\<close>

lemma whole_tag_called_twice:
  assumes "search TAG_PATTERN s = Some m" and "m_start m = 0" and "m_end m = length s"
    and "group m ''function'' = Some name" and "group m ''args'' = Some a"
    and "getattr_functions E name = Some f"
    and "f (map unquote (findall ARG_PATTERN a)) it w = (Inr v1, w1)"
    and "\<not> is_str v1" and "v1 \<noteq> PNone"
    and "f (map unquote (findall ARG_PATTERN a)) it w1 = (Inr v2, w2)"
  shows "evaluate_parsed (Suc n) E (PStr s) ac it w = (Inr v2, w2)"
proof -
  from assms(1-3) have whole: "whole_match m"
    by (simp add: whole_match_def search_string)
  from assms(4-7) have c1: "tag_call E it m w = (Inr v1, w1)" by (simp add: tag_call_def)
  from assms(4-6,10) have c2: "tag_call E it m w1 = (Inr v2, w2)" by (simp add: tag_call_def)
  from c1 c2 whole assms(8,9) show ?thesis
    by (simp add: evaluate_whole_tag [OF assms(1-3)] call_function_str)
qed

lemma whole_tag_called_twice_example:
  "evaluate_parsed (Suc 0) demo_env (PStr ''{% count %}'') False PNone 0 = (Inr (PInt 2), 2)"
proof -
  let ?m = "\<lparr>m_string = ''{% count %}'', m_start = 0, m_end = 11,
     m_groups = [(''args'', 8, 8), (''function'', 3, 8)]\<rparr>"
  let ?f = "\<lambda>(args :: string list) (iteration :: pyval) (w :: nat). (Inr (PInt (int (Suc w))) :: exn + pyval, Suc w)"
  have h1: "search TAG_PATTERN ''{% count %}'' = Some ?m" by code_simp
  have h2: "m_start ?m = 0" by simp
  have h3: "m_end ?m = length ''{% count %}''" by simp
  have h4: "group ?m ''function'' = Some ''count''" by code_simp
  have h5: "group ?m ''args'' = Some []" by code_simp
  have h6: "getattr_functions demo_env ''count'' = Some ?f"
    by (simp add: demo_env_def demo_functions_def)
  have h7: "?f (map unquote (findall ARG_PATTERN [])) PNone 0 = (Inr (PInt 1), 1)" by simp
  have h8: "\<not> is_str (PInt 1)" by simp
  have h9: "PInt 1 \<noteq> PNone" by simp
  have h10: "?f (map unquote (findall ARG_PATTERN [])) PNone 1 = (Inr (PInt 2), 2)" by simp
  from whole_tag_called_twice [OF h1 h2 h3 h4 h5 h6 h7 h8 h9 h10] show ?thesis .
qed

text \<open>
  C10. A text node that is exactly one tag whose function returns a value that is not a
  str should have its function called twice, the substitution failing and the fallback
  calling again, and evaluate to the value of the second call. The code does not do so
  for the non-string value \<^verbatim>\<open>None\<close>, which \<^verbatim>\<open>re.sub\<close> drops without failing: the fallback is
  not reached, the function is called once (the counter of calls ends at 1) and the node
  evaluates to the empty string.
\<close>

theorem None_result_called_once:
  "the (getattr_functions demo_env ''nothing'') [] (PInt 0) 0 = (Inr PNone, 1)
   \<and> evaluate_parsed 1 demo_env (PStr ''{%nothing%}'') True (PInt 0) 0 = (Inr (PStr []), 1)"
  by code_simp



text \<open>
  When a tag of a text node has a name that \<^verbatim>\<open>getattr\<close> does not find in the module, and the
  tags before it in the same text are replaced without error, the evaluation of the node
  raises the exception for a non-existent function, with exactly that name, whether the
  tag stands alone or is embedded. The same exception ends the loop over a sequence whose
  current element is that text, and the evaluation of a mapping in which the text is the
  value or (the value being evaluated first) the key of the current item.
\<close>

lemma unknown_function_aborts:
  assumes tags: "finditer TAG_PATTERN s = pre @ m # post"
    and name: "group m ''function'' = Some name"
    and absent: "getattr_functions E name = None"
    and before: "splice E it s 0 pre w = (Inr t, w1)"
  shows "evaluate_parsed (Suc n) E (PStr s) ac it w
           = (Inl (DDEvaluatorException (''attempted call to non-existent function '' @ name)), w1)
     \<and> (it = PInt (int i) \<and> i < length xs \<and> xs ! i = PStr s \<longrightarrow>
          evaluate_array (evaluate_parsed (Suc n) E) E xs i acc w
            = (Inl (DDEvaluatorException (''attempted call to non-existent function '' @ name)), w1))
     \<and> evaluate_object (evaluate_parsed (Suc n) E) it ((k, PStr s) # rest) d w
            = (Inl (DDEvaluatorException (''attempted call to non-existent function '' @ name)), w1)
     \<and> (evaluate_parsed (Suc n) E v False it w0 = (Inr v', w) \<longrightarrow>
          evaluate_object (evaluate_parsed (Suc n) E) it ((PStr s, v) # rest) d w0
            = (Inl (DDEvaluatorException (''attempted call to non-existent function '' @ name)), w1))"
proof -
  let ?err = "DDEvaluatorException (''attempted call to non-existent function '' @ name)"
  from tags have "m \<in> set (finditer TAG_PATTERN s)" by simp
  from tag_groups [OF this] obtain a where args: "group m ''args'' = Some a" by blast
  have node: "evaluate_parsed (Suc n) E (PStr s) b it w = (Inl ?err, w1)" for b
  proof -
    have nw: "\<forall>m' \<in> set pre. \<not> whole_match m'"
    proof
      fix m' assume mem: "m' \<in> set pre"
      show "\<not> whole_match m'"
      proof
        assume "whole_match m'"
        from mem tags have "m' \<in> set (finditer TAG_PATTERN s)" by simp
        from finditer_whole_single [OF consumes_TAG_PATTERN this \<open>whole_match m'\<close>] tags
        have "pre @ m # post = [m']" by simp
        with mem show False by (cases pre) simp_all
      qed
    qed
    from sub_pieces_splice [OF nw before, of b] obtain ps where
      ps: "sub_pieces (call_function E (PStr s) b it) s 0 pre w = (Inr ps, w1)"
      by blast
    have "call_function E (PStr s) b it m w1 = (Inl ?err, w1)"
      using tag_call_absent [OF name args absent, of it w1] name
      by (simp add: call_function_str unknown_message_def)
    from sub_pieces_raise [OF ps this, of post] tags show ?thesis
      by (simp add: evaluate_node_def re_sub_def)
  qed
  have arr: "it = PInt (int i) \<and> i < length xs \<and> xs ! i = PStr s \<longrightarrow>
      evaluate_array (evaluate_parsed (Suc n) E) E xs i acc w = (Inl ?err, w1)"
    using node [of True] by (auto intro: evaluate_array_raise)
  have val: "evaluate_object (evaluate_parsed (Suc n) E) it ((k, PStr s) # rest) d w = (Inl ?err, w1)"
    using node [of False] by simp
  have key: "evaluate_parsed (Suc n) E v False it w0 = (Inr v', w) \<longrightarrow>
      evaluate_object (evaluate_parsed (Suc n) E) it ((PStr s, v) # rest) d w0 = (Inl ?err, w1)"
    using node [of False] by simp
  from node [of ac] arr val key show ?thesis by blast
qed

lemma unknown_function_aborts_example:
  "evaluate_parsed (Suc 0) demo_env (PStr ''x{% nope %}'') False (PInt (int 1)) 0
     = (Inl (DDEvaluatorException (''attempted call to non-existent function '' @ ''nope'')), 0)
   \<and> evaluate_array (evaluate_parsed (Suc 0) demo_env) demo_env [PStr ''a'', PStr ''x{% nope %}''] 1
        [PStr ''a''] 0
     = (Inl (DDEvaluatorException (''attempted call to non-existent function '' @ ''nope'')), 0)
   \<and> evaluate_object (evaluate_parsed (Suc 0) demo_env) (PInt (int 1))
        ((PStr ''k'', PStr ''x{% nope %}'') # []) [] 0
     = (Inl (DDEvaluatorException (''attempted call to non-existent function '' @ ''nope'')), 0)
   \<and> evaluate_object (evaluate_parsed (Suc 0) demo_env) (PInt (int 1))
        ((PStr ''x{% nope %}'', PStr ''v'') # []) [] 0
     = (Inl (DDEvaluatorException (''attempted call to non-existent function '' @ ''nope'')), 0)"
proof -
  let ?s = "''x{% nope %}''"
  let ?m = "\<lparr>m_string = ?s, m_start = 1, m_end = 11,
     m_groups = [(''args'', 8, 8), (''function'', 4, 8)]\<rparr>"
  have h1: "finditer TAG_PATTERN ?s = [] @ ?m # []" by code_simp
  have h2: "group ?m ''function'' = Some ''nope''" by code_simp
  have h4: "getattr_functions demo_env ''nope'' = None"
    by (simp add: demo_env_def demo_functions_def)
  have h5: "splice demo_env (PInt (int 1)) ?s 0 [] 0 = (Inr ?s, 0)" by simp
  have a: "PInt (int 1) = PInt (int 1) \<and> (1::nat) < length [PStr ''a'', PStr ?s]
      \<and> [PStr ''a'', PStr ?s] ! 1 = PStr ?s" by simp
  have v: "evaluate_parsed (Suc 0) demo_env (PStr ''v'') False (PInt (int 1)) 0 = (Inr (PStr ''v''), 0)"
    by code_simp
  from unknown_function_aborts [OF h1 h2 h4 h5, of 0 False 1 "[PStr ''a'', PStr ?s]"
      "[PStr ''a'']" "PStr ''k''" "[]" "[]" "PStr ''v''" 0 "PStr ''v''"] a v
  show ?thesis by blast
qed

text \<open>
  C8. A tag whose name is not a function of the registry should raise the exception for a
  non-existent function, naming it. The code looks the name up with \<^verbatim>\<open>getattr\<close> in the
  module and turns only \<^verbatim>\<open>AttributeError\<close> into that exception. A name that is an attribute
  of the module without being a function is found: \<^verbatim>\<open>__name__\<close> is no function of any
  registry, the call of the str it holds raises \<^verbatim>\<open>TypeError\<close>, the fallback for
  \<^verbatim>\<open>TypeError\<close> makes the call again, and the evaluation of \<^verbatim>\<open>"{% __name__ %}"\<close> fails with
  \<^verbatim>\<open>TypeError\<close> instead.
\<close>

theorem non_function_attribute_TypeError:
  "the (getattr_functions demo_env ''__name__'') [] PNone 0 = (Inl TypeError, 0)
   \<and> evaluate_parsed 1 demo_env (PStr ''{% __name__ %}'') False PNone 0 = (Inl TypeError, 0)"
  by code_simp

section \<open>Sequences\<close>

text \<open>
  C3. When the element at position \<open>index\<close>, not the last one, evaluates (callables
  allowed, the iteration index being the position) to a callable whose \<^verbatim>\<open>parent_function\<close>
  is \<^verbatim>\<open>repeat\<close>, the loop calls it with the unevaluated element at \<open>index + 1\<close> and the
  evaluator as callback, appends the elements of the list it returns to the output, and
  goes on at \<open>index + 2\<close>.
\<close>

theorem repeat_consumes_template:
  assumes "index + 1 < length parsed_array"
    and "evaluate_parsed n E (parsed_array ! index) True (PInt (int index)) w
           = (Inr (PCallable (Some ''repeat'') c), w1)"
    and "call_deferred E (PCallable (Some ''repeat'') c) (parsed_array ! (index + 1))
           (evaluate_parsed n E) w1 = (Inr (PList ys), w2)"
  shows "evaluate_array (evaluate_parsed n E) E parsed_array index evaluated w
           = evaluate_array (evaluate_parsed n E) E parsed_array (index + 2) (evaluated @ ys) w2"
  using assms by (simp add: evaluate_array.simps [of _ E parsed_array index] py_iter_def)

theorem repeat_consumes_template_witness:
  "(0::nat) + 1 < length [PStr ''{% repeat 2 %}'', PStr ''{% index %}'', PStr ''z'']
   \<and> evaluate_parsed 1 demo_env ([PStr ''{% repeat 2 %}'', PStr ''{% index %}'', PStr ''z''] ! 0)
         True (PInt (int 0)) 0 = (Inr (PCallable (Some ''repeat'') 2), 2)
   \<and> call_deferred demo_env (PCallable (Some ''repeat'') 2)
         ([PStr ''{% repeat 2 %}'', PStr ''{% index %}'', PStr ''z''] ! (0 + 1))
         (evaluate_parsed 1 demo_env) 2 = (Inr (PList [PStr ''0'', PStr ''1'']), 4)
   \<and> evaluate_array (evaluate_parsed 1 demo_env) demo_env
         [PStr ''{% repeat 2 %}'', PStr ''{% index %}'', PStr ''z''] 0 [] 0
       = (Inr (PList [PStr ''0'', PStr ''1'', PStr ''z'']), 4)"
proof -
  let ?xs = "[PStr ''{% repeat 2 %}'', PStr ''{% index %}'', PStr ''z'']"
  have h1: "(0::nat) + 1 < length ?xs" by simp
  have h2: "evaluate_parsed 1 demo_env (?xs ! 0) True (PInt (int 0)) 0
      = (Inr (PCallable (Some ''repeat'') 2), 2)" by code_simp
  have h3: "call_deferred demo_env (PCallable (Some ''repeat'') 2) (?xs ! (0 + 1))
      (evaluate_parsed 1 demo_env) 2 = (Inr (PList [PStr ''0'', PStr ''1'']), 4)" by code_simp
  have rest: "evaluate_array (evaluate_parsed 1 demo_env) demo_env ?xs (0 + 2)
      ([] @ [PStr ''0'', PStr ''1'']) 4 = (Inr (PList [PStr ''0'', PStr ''1'', PStr ''z'']), 4)"
    by code_simp
  from repeat_consumes_template [OF h1 h2 h3, of "[]"] rest h1 h2 h3 show ?thesis by simp
qed

text \<open>
  C7. When the element at the last position evaluates to a callable with a
  \<^verbatim>\<open>parent_function\<close>, whatever its name, the evaluation of the sequence raises the exception
  for an invalid use at the end of the array.
\<close>

theorem controller_at_end_of_array:
  assumes "index < length parsed_array" and "length parsed_array \<le> index + 1"
    and "evaluate_parsed n E (parsed_array ! index) True (PInt (int index)) w
           = (Inr (PCallable (Some pf) c), w1)"
  shows "evaluate_array (evaluate_parsed n E) E parsed_array index evaluated w
           = (Inl (DDEvaluatorException (''invalid use of '' @ pf @ '' function at end of array'')), w1)"
  using assms by (simp add: evaluate_array.simps [of _ E parsed_array index])

theorem controller_at_end_of_array_witness:
  "(1::nat) < length [PStr ''a'', PStr ''{% repeat 2 %}'']
   \<and> evaluate_parsed 1 demo_env ([PStr ''a'', PStr ''{% repeat 2 %}''] ! 1) True (PInt (int 1)) 0
       = (Inr (PCallable (Some ''repeat'') 2), 2)
   \<and> evaluate_array (evaluate_parsed 1 demo_env) demo_env [PStr ''a'', PStr ''{% repeat 2 %}''] 1
         [PStr ''a''] 0
       = (Inl (DDEvaluatorException ''invalid use of repeat function at end of array''), 2)
   \<and> evaluate_parsed 2 demo_env (PList [PStr ''a'', PStr ''{% repeat 2 %}'']) False PNone 0
       = (Inl (DDEvaluatorException ''invalid use of repeat function at end of array''), 2)"
proof -
  have doc: "evaluate_parsed 2 demo_env (PList [PStr ''a'', PStr ''{% repeat 2 %}'']) False PNone 0
       = (Inl (DDEvaluatorException ''invalid use of repeat function at end of array''), 2)"
    by code_simp
  have h1: "(1::nat) < length [PStr ''a'', PStr ''{% repeat 2 %}'']" by simp
  have h2: "length [PStr ''a'', PStr ''{% repeat 2 %}''] \<le> (1::nat) + 1" by simp
  have h3: "evaluate_parsed 1 demo_env ([PStr ''a'', PStr ''{% repeat 2 %}''] ! 1) True (PInt (int 1)) 0
       = (Inr (PCallable (Some ''repeat'') 2), 2)" by code_simp
  from controller_at_end_of_array [OF h1 h2 h3, of "[PStr ''a'']"] h1 h3 doc show ?thesis by simp
qed

text \<open>
  C1, amended. When the element at position \<open>index\<close>, not the last one, evaluates to a
  callable whose \<^verbatim>\<open>parent_function\<close> is \<^verbatim>\<open>random\<close>, the result of evaluating the sequence is
  the result of calling it with the unevaluated elements after \<open>index\<close> and the evaluator
  as callback: the elements evaluated before are not part of the result, and no later
  position is evaluated by the loop.
\<close>

theorem random_returns_controller_result:
  assumes "index + 1 < length parsed_array"
    and "evaluate_parsed n E (parsed_array ! index) True (PInt (int index)) w
           = (Inr (PCallable (Some ''random'') c), w1)"
  shows "evaluate_array (evaluate_parsed n E) E parsed_array index evaluated w
           = call_deferred E (PCallable (Some ''random'') c) (PList (drop (index + 1) parsed_array))
               (evaluate_parsed n E) w1"
  using assms by (simp add: evaluate_array.simps [of _ E parsed_array index])

theorem random_returns_controller_result_witness:
  "(1::nat) + 1 < length [PStr ''a'', PStr ''{% random %}'', PStr ''b'']
   \<and> evaluate_parsed 1 demo_env ([PStr ''a'', PStr ''{% random %}'', PStr ''b''] ! 1)
         True (PInt (int 1)) 0 = (Inr (PCallable (Some ''random'') 0), 2)
   \<and> evaluate_array (evaluate_parsed 1 demo_env) demo_env
         [PStr ''a'', PStr ''{% random %}'', PStr ''b''] 1 [PStr ''a''] 0
       = (Inr (PList [PStr ''b'']), 2)"
proof -
  let ?xs = "[PStr ''a'', PStr ''{% random %}'', PStr ''b'']"
  have h1: "(1::nat) + 1 < length ?xs" by simp
  have h2: "evaluate_parsed 1 demo_env (?xs ! 1) True (PInt (int 1)) 0
      = (Inr (PCallable (Some ''random'') 0), 2)" by code_simp
  have res: "call_deferred demo_env (PCallable (Some ''random'') 0) (PList (drop (1 + 1) ?xs))
      (evaluate_parsed 1 demo_env) 2 = (Inr (PList [PStr ''b'']), 2)" by code_simp
  from random_returns_controller_result [OF h1 h2, of "[PStr ''a'']"] res h1 h2
  show ?thesis by simp
qed

text \<open>
  C1 as stated fails: in \<^verbatim>\<open>["a", "{% random %}", "b"]\<close> the element \<^verbatim>\<open>"a"\<close> evaluates to
  \<^verbatim>\<open>"a"\<close>, and the sequence evaluates to the callable's result \<^verbatim>\<open>["b"]\<close> alone.
\<close>

theorem random_drops_evaluated_prefix:
  "evaluate_parsed 1 demo_env (PStr ''a'') True (PInt 0) 0 = (Inr (PStr ''a''), 0)
   \<and> evaluate_parsed 2 demo_env (PList [PStr ''a'', PStr ''{% random %}'', PStr ''b'']) False PNone 0
       = (Inr (PList [PStr ''b'']), 2)"
  by code_simp

section \<open>Mappings\<close>

text \<open>
  On a str node the value of \<^verbatim>\<open>allow_callable\<close> is read only by the test for an illegal
  location, which never fires, and the calls for a dict and a list do not pass it on: the
  result of \<open>evaluate_parsed\<close> does not depend on it.
\<close>

lemma call_function_str_fun:
  "call_function E (PStr s) ac it =
     (\<lambda>m w. case tag_call E it m w of
        (Inl e, w1) \<Rightarrow>
          (Inl (if e = AttributeError then DDEvaluatorException (unknown_message m) else e), w1)
      | (Inr v, w1) \<Rightarrow> (Inr (if whole_match m then v else PStr (py_str E v)), w1))"
  by (rule ext, rule ext) (rule call_function_str)

lemma allow_callable_inert:
  "evaluate_parsed n E parsed ac it w = evaluate_parsed n E parsed ac' it w"
proof (cases n)
  case 0
  then show ?thesis by simp
next
  case (Suc k)
  then show ?thesis
    by (cases parsed)
       (simp_all add: evaluate_node_def call_function_str_fun split: prod.splits option.splits)
qed

lemma evaluate_object_pairs:
  "eval_pairs (\<lambda>x. rec x False it) kvs w = (Inr ps, w') \<Longrightarrow> \<forall>kv \<in> set ps. hashable (fst kv)
     \<Longrightarrow> evaluate_object rec it kvs d w = (Inr (PDict (insert_all d ps)), w')"
proof (induction kvs arbitrary: d w ps)
  case Nil
  then show ?case by (simp add: insert_all_def)
next
  case (Cons kv kvs)
  obtain k v where kv: "kv = (k, v)" by (cases kv)
  from Cons.prems(1) kv obtain v' w1 k' w2 ps' where
    v: "rec v False it w = (Inr v', w1)" and k: "rec k False it w1 = (Inr k', w2)"
    and rest: "eval_pairs (\<lambda>x. rec x False it) kvs w2 = (Inr ps', w')" and ps: "ps = (k', v') # ps'"
    by (auto split: prod.splits sum.splits)
  from Cons.prems(2) ps have h: "hashable k'" and hr: "\<forall>kv \<in> set ps'. hashable (fst kv)"
    by simp_all
  from Cons.IH [OF rest hr, of "dict_set d k' v'"] v k h ps kv show ?case
    by (simp add: insert_all_def)
qed

text \<open>
  C5, amended. The keys and values of a mapping are evaluated with the iteration index
  \<open>it\<close> of the evaluation of the mapping itself (absent at top level, the position when
  the mapping is an element of a sequence), item by item in the original order; when all of
  them return and the keys are hashable, the result is the ordered mapping obtained by
  inserting the evaluated items, in that order, into an empty one. This holds for either
  value \<open>b\<close> of \<^verbatim>\<open>allow_callable\<close> in the evaluation of the keys and values.
\<close>

theorem mapping_inherits_iteration:
  assumes "eval_pairs (\<lambda>x. evaluate_parsed n E x b it) kvs w = (Inr ps, w')"
    and "\<forall>kv \<in> set ps. hashable (fst kv)"
  shows "evaluate_parsed (Suc n) E (PDict kvs) ac it w = (Inr (PDict (insert_all [] ps)), w')"
proof -
  have "(\<lambda>x. evaluate_parsed n E x b it) = (\<lambda>x. evaluate_parsed n E x False it)"
    by (rule ext, rule ext) (rule allow_callable_inert)
  with assms(1)
  have items: "eval_pairs (\<lambda>x. evaluate_parsed n E x False it) kvs w = (Inr ps, w')" by simp
  have "evaluate_object (evaluate_parsed n E) it kvs [] w = (Inr (PDict (insert_all [] ps)), w')"
    by (rule evaluate_object_pairs) (rule items, rule assms(2))
  then show ?thesis by (simp add: evaluate_node_def)
qed

theorem mapping_inherits_iteration_witness:
  "evaluate_parsed (Suc 1) demo_env (PDict [(PStr ''k'', PStr ''{% index %}'')]) True (PInt 0) 0
     = (Inr (PDict [(PStr ''k'', PStr ''0'')]), 1)"
proof -
  have h1: "eval_pairs (\<lambda>x. evaluate_parsed 1 demo_env x False (PInt 0))
      [(PStr ''k'', PStr ''{% index %}'')] 0 = (Inr [(PStr ''k'', PStr ''0'')], 1)" by code_simp
  have h2: "\<forall>kv \<in> set [(PStr ''k'', PStr ''0'')]. hashable (fst kv)" by simp
  from mapping_inherits_iteration [OF h1 h2, of True] show ?thesis
    by (simp add: insert_all_def)
qed

text \<open>
  C5 as stated fails: a mapping that is element 0 of a sequence has its value evaluated
  with the iteration index 0, where the same mapping at top level gets no index.
\<close>

theorem mapping_in_sequence_gets_position:
  "evaluate_parsed 3 demo_env (PList [PDict [(PStr ''k'', PStr ''{% index %}'')]]) False PNone 0
     = (Inr (PList [PDict [(PStr ''k'', PStr ''0'')]]), 1)
   \<and> evaluate_parsed 2 demo_env (PDict [(PStr ''k'', PStr ''{% index %}'')]) False PNone 0
     = (Inr (PDict [(PStr ''k'', PStr ''None'')]), 1)"
  by code_simp

text \<open>
  C2. A callable produced in a place other than an element of a sequence should raise the
  exception for an illegal location. The code tests the node being evaluated, a str,
  instead of the value, so nothing is raised: with \<^verbatim>\<open>repeat\<close> returning a callable, the
  mapping \<^verbatim>\<open>{"k": "{% repeat 3 %}"}\<close> evaluates to a mapping that holds the callable.
\<close>

theorem callable_as_mapping_value_no_error:
  "evaluate_parsed 2 demo_env (PDict [(PStr ''k'', PStr ''{% repeat 3 %}'')]) False PNone 0
     = (Inr (PDict [(PStr ''k'', PCallable (Some ''repeat'') 3)]), 2)"
  by code_simp

section \<open>Documents without tags\<close>

lemma dict_set_append:
  "py_key k \<notin> (\<lambda>kv. py_key (fst kv)) ` set d \<Longrightarrow> dict_set d k v = d @ [(k, v)]"
  by (induction d) (auto simp: key_eq_def)

lemma evaluate_object_id:
  assumes "\<forall>kv \<in> set kvs. (\<forall>w. rec (fst kv) False it w = (Inr (fst kv), w))
              \<and> (\<forall>w. rec (snd kv) False it w = (Inr (snd kv), w)) \<and> hashable (fst kv)"
    and "distinct (map (\<lambda>kv. py_key (fst kv)) (d @ kvs))"
  shows "evaluate_object rec it kvs d w = (Inr (PDict (d @ kvs)), w)"
  using assms
proof (induction kvs arbitrary: d)
  case Nil
  then show ?case by simp
next
  case (Cons kv kvs)
  obtain k v where kv: "kv = (k, v)" by (cases kv)
  from Cons.prems(2) kv have fresh: "py_key k \<notin> (\<lambda>kv. py_key (fst kv)) ` set d"
    by auto
  from Cons.prems(2) kv have dist: "distinct (map (\<lambda>kv. py_key (fst kv)) ((d @ [(k, v)]) @ kvs))"
    by simp
  from Cons.prems(1) have rest: "\<forall>kv \<in> set kvs. (\<forall>w. rec (fst kv) False it w = (Inr (fst kv), w))
      \<and> (\<forall>w. rec (snd kv) False it w = (Inr (snd kv), w)) \<and> hashable (fst kv)"
    by simp
  from Cons.prems(1) kv have here: "\<And>w. rec k False it w = (Inr k, w)"
    "\<And>w. rec v False it w = (Inr v, w)" "hashable k"
    by simp_all
  from Cons.IH [OF rest dist] here show ?case
    by (simp add: kv dict_set_append [OF fresh])
qed

lemma evaluate_array_id:
  assumes "\<forall>x \<in> set xs. (\<forall>i w. rec x True i w = (Inr x, w)) \<and> \<not> has_call x"
  shows "evaluate_array rec E xs i acc w = (Inr (PList (acc @ drop i xs)), w)"
proof (induction "length xs - i" arbitrary: i acc)
  case 0
  then show ?case by (simp add: evaluate_array.simps [of rec E xs i])
next
  case (Suc j)
  then have lt: "i < length xs" and j: "j = length xs - Suc i" by simp_all
  from lt assms have here: "rec (xs ! i) True (PInt (int i)) w = (Inr (xs ! i), w)"
    "\<not> has_call (xs ! i)" by simp_all
  from Suc.hyps(1) [OF j, of "acc @ [xs ! i]"] here lt show ?case
    by (simp add: evaluate_array.simps [of rec E xs i] Cons_nth_drop_Suc)
qed

lemma depth_mem: "x \<in> set xs \<Longrightarrow> f x \<le> foldr max (map f xs) (0::nat)"
  by (induction xs) auto

lemma document_no_call: "document x \<Longrightarrow> \<not> has_call x"
  by (cases x) simp_all

lemma evaluate_str_no_tag:
  "search TAG_PATTERN s = None \<Longrightarrow> evaluate_node rec E (PStr s) ac it w = (Inr (PStr s), w)"
  by (simp add: evaluate_node_def re_sub_def finditer_none str_join_def)

text \<open>
  C9. A document that contains no tag evaluates to itself: the same shape, the same keys
  in the same order, the same elements and scalars, for every iteration index and every
  setting of \<^verbatim>\<open>allow_callable\<close>, as soon as the depth budget covers the nesting of the
  document; no function is called (the state is unchanged).
\<close>

theorem no_tags_identity:
  "document parsed \<Longrightarrow> tag_free parsed \<Longrightarrow> depth parsed \<le> n
     \<Longrightarrow> evaluate_parsed n E parsed ac it w = (Inr parsed, w)"
proof (induction n arbitrary: parsed ac it w)
  case 0
  then show ?case by (cases parsed) simp_all
next
  case (Suc n)
  show ?case
  proof (cases parsed)
    case (PStr s)
    with Suc.prems show ?thesis by (simp add: evaluate_str_no_tag)
  next
    case (PList xs)
    have all: "\<forall>x \<in> set xs. (\<forall>i w. evaluate_parsed n E x True i w = (Inr x, w)) \<and> \<not> has_call x"
    proof
      fix x assume x: "x \<in> set xs"
      with Suc.prems PList have "document x" "tag_free x" by simp_all
      moreover from Suc.prems(3) PList depth_mem [OF x, of depth] have "depth x \<le> n" by simp
      ultimately show "(\<forall>i w. evaluate_parsed n E x True i w = (Inr x, w)) \<and> \<not> has_call x"
        using Suc.IH document_no_call by blast
    qed
    have "evaluate_array (evaluate_parsed n E) E xs 0 [] w = (Inr (PList ([] @ drop 0 xs)), w)"
      by (rule evaluate_array_id) (rule all)
    with PList show ?thesis
      by (simp add: evaluate_node_def)
  next
    case (PDict d)
    have all: "\<forall>kv \<in> set d. (\<forall>w. evaluate_parsed n E (fst kv) False it w = (Inr (fst kv), w))
        \<and> (\<forall>w. evaluate_parsed n E (snd kv) False it w = (Inr (snd kv), w)) \<and> hashable (fst kv)"
    proof
      fix kv assume kv: "kv \<in> set d"
      with Suc.prems PDict have doc: "document (fst kv)" "document (snd kv)" "hashable (fst kv)"
        and tf: "tag_free (fst kv)" "tag_free (snd kv)" by simp_all
      from Suc.prems(3) PDict depth_mem [OF kv, of "\<lambda>kv. max (depth (fst kv)) (depth (snd kv))"]
      have "depth (fst kv) \<le> n" "depth (snd kv) \<le> n" by simp_all
      with doc tf Suc.IH
      show "(\<forall>w. evaluate_parsed n E (fst kv) False it w = (Inr (fst kv), w))
        \<and> (\<forall>w. evaluate_parsed n E (snd kv) False it w = (Inr (snd kv), w)) \<and> hashable (fst kv)"
        by blast
    qed
    from Suc.prems(1) PDict have dist: "distinct (map (\<lambda>kv. py_key (fst kv)) ([] @ d))"
      by simp
    have "evaluate_object (evaluate_parsed n E) it d [] w = (Inr (PDict ([] @ d)), w)"
      by (rule evaluate_object_id) (rule all, rule dist)
    with PDict show ?thesis
      by (simp add: evaluate_node_def)
  next
    case (PCallable pf c)
    with Suc.prems show ?thesis by simp
  qed (simp_all add: evaluate_node_def)
qed

theorem no_tags_identity_witness:
  "evaluate_parsed 3 demo_env
     (PDict [(PStr ''name'', PList [PStr ''a b'', PInt 3, PNone]), (PInt 1, PBool True)]) False PNone 0
   = (Inr (PDict [(PStr ''name'', PList [PStr ''a b'', PInt 3, PNone]), (PInt 1, PBool True)]), 0)"
proof -
  let ?d = "PDict [(PStr ''name'', PList [PStr ''a b'', PInt 3, PNone]), (PInt 1, PBool True)]"
  have s1: "search TAG_PATTERN ''name'' = None" by code_simp
  have s2: "search TAG_PATTERN ''a b'' = None" by code_simp
  have h1: "document ?d" by simp
  have h2: "tag_free ?d" by (simp add: s1 s2)
  have h3: "depth ?d \<le> 3" by simp
  from no_tags_identity [OF h1 h2 h3] show ?thesis .
qed

end
